theory Spec2Isabelle
  imports Main "HOL-Library.Word" "HOL-Library.Multiset"
begin

unbundle bit_operations_syntax

section \<open>GArray (glib/garray.c): data model\<close>

text \<open>
  The model is that of an LP64 platform: \<open>guint\<close> is 32 bits wide and \<open>gsize\<close> 64 bits.
  Arithmetic on them wraps, as in C.
\<close>

type_synonym guint = "32 word"
type_synonym gsize = "64 word"

definition G_MAXUINT :: guint where
  "G_MAXUINT = 0xFFFFFFFF"

definition G_MAXSIZE :: gsize where
  "G_MAXSIZE = 0xFFFFFFFFFFFFFFFF"

definition MIN_ARRAY_SIZE :: gsize where
  "MIN_ARRAY_SIZE = 16"

text \<open>
  A byte of heap memory is either written (\<open>Some b\<close>) or indeterminate (\<open>None\<close>), which is
  what \<open>g_realloc\<close> hands out beyond the bytes it preserves. A heap block is the list of its
  bytes, and a pointer to a block is \<open>Some\<close> of it; \<open>None\<close> is \<open>NULL\<close>.
\<close>

type_synonym membyte = "8 word option"
type_synonym block = "membyte list"

text \<open>
  \<open>struct _GRealArray\<close>. The two one-bit fields are booleans; \<open>clear_func\<close> is a callback
  that receives a pointer to one element and may rewrite that element's bytes.
\<close>

record GRealArray =
  data :: "block option"
  len :: guint
  elt_capacity :: guint
  elt_size :: guint
  zero_terminated :: bool
  clear :: bool
  ref_count :: int
  clear_func :: "(block \<Rightarrow> block) option"

text \<open>
  How a call can stop short of its normal return: \<open>g_error\<close> and a failed \<open>g_assert\<close>
  abort the process; a failed \<open>g_return_val_if_fail\<close> logs a critical warning and returns
  at once, the array untouched; a division by zero traps.
\<close>

datatype error = Fatal_overflow | Assert_failed | Critical | Div_by_zero

subsection \<open>Memory primitives\<close>

text \<open>\<open>memcpy\<close>/\<open>memmove\<close> into a block at byte offset \<open>pos\<close>; the block keeps its size.\<close>

definition blk_write :: "block \<Rightarrow> nat \<Rightarrow> block \<Rightarrow> block" where
  "blk_write blk pos src =
     take pos blk @ take (length blk - pos) src @ drop (pos + length src) blk"

text \<open>The \<open>n\<close> bytes of a block from byte offset \<open>pos\<close>.\<close>

definition blk_read :: "block \<Rightarrow> nat \<Rightarrow> nat \<Rightarrow> block" where
  "blk_read blk pos n = take n (drop pos blk)"

text \<open>
  \<open>g_realloc (mem, n_bytes)\<close> for \<open>n_bytes > 0\<close>: a block of \<open>n_bytes\<close> bytes that starts
  with the old contents; the rest is indeterminate. It never returns \<open>NULL\<close> (it aborts when
  memory runs out, which the model leaves out).
\<close>

definition g_realloc :: "block option \<Rightarrow> gsize \<Rightarrow> block option" where
  "g_realloc mem n_bytes =
     (let old = (case mem of None \<Rightarrow> [] | Some b \<Rightarrow> b)
      in Some (take (unat n_bytes) old @ replicate (unat n_bytes - length old) None))"

text \<open>
  Modelled from the spec: \<open>g_nearest_pow\<close>, an inline helper of gutilsprivate.h that is not
  among the sources. The spec describes its result as "the next power-of-two number of bytes"
  at or above its argument. Where no power of two at or above the argument fits a \<open>gsize\<close> the
  model returns 0, so that the assertion of the caller fails.
\<close>

definition g_nearest_pow :: "gsize \<Rightarrow> gsize" where
  "g_nearest_pow num =
     (case find (\<lambda>k. unat num \<le> 2 ^ k) [0..<64] of
        Some k \<Rightarrow> 2 ^ k
      | None \<Rightarrow> 0)"

subsection \<open>The element macros\<close>

definition g_array_elt_len :: "GRealArray \<Rightarrow> guint \<Rightarrow> gsize" where
  "g_array_elt_len array i = ucast (elt_size array) * ucast i"

text \<open>\<open>g_array_elt_pos (array, i)\<close> as a byte offset into the block of \<open>array\<close>.\<close>

definition g_array_elt_pos :: "GRealArray \<Rightarrow> guint \<Rightarrow> nat" where
  "g_array_elt_pos array i = unat (g_array_elt_len array i)"

definition memset_zero :: "block option \<Rightarrow> nat \<Rightarrow> nat \<Rightarrow> block option" where
  "memset_zero mem pos n = map_option (\<lambda>b. blk_write b pos (replicate n (Some 0))) mem"

definition g_array_elt_zero :: "GRealArray \<Rightarrow> guint \<Rightarrow> guint \<Rightarrow> GRealArray" where
  "g_array_elt_zero array pos n =
     array\<lparr>data := memset_zero (data array) (g_array_elt_pos array pos)
                      (unat (g_array_elt_len array n))\<rparr>"

definition g_array_zero_terminate :: "GRealArray \<Rightarrow> GRealArray" where
  "g_array_zero_terminate array =
     (if zero_terminated array then g_array_elt_zero array (len array) 1 else array)"

subsection \<open>Growing\<close>

text \<open>
  \<open>g_array_maybe_expand\<close>. The first argument of every function that consults it is the
  global \<open>g_mem_gc_friendly\<close>.
\<close>

definition array_max_len :: "GRealArray \<Rightarrow> guint" where
  "array_max_len array =
     ucast (min (G_MAXSIZE div 2 div ucast (elt_size array)) (ucast G_MAXUINT)
            - of_bool (zero_terminated array))"

definition g_array_maybe_expand :: "bool \<Rightarrow> GRealArray \<Rightarrow> guint \<Rightarrow> error + GRealArray" where
  "g_array_maybe_expand g_mem_gc_friendly array n =
     (if elt_size array = 0 then Inl Div_by_zero
      else
        let max_len = array_max_len array in
        if max_len - len array < n then Inl Fatal_overflow
        else
          let want_len = len array + n + of_bool (zero_terminated array) in
          if want_len > elt_capacity array then
            let want_alloc = g_nearest_pow (g_array_elt_len array want_len) in
            if \<not> want_alloc \<ge> g_array_elt_len array want_len then Inl Assert_failed
            else
              let want_alloc = max want_alloc MIN_ARRAY_SIZE;
                  mem = g_realloc (data array) want_alloc;
                  mem = (if g_mem_gc_friendly
                         then memset_zero mem (g_array_elt_pos array (elt_capacity array))
                                (unat (g_array_elt_len array (want_len - elt_capacity array)))
                         else mem)
              in Inr (array\<lparr>data := mem,
                            elt_capacity :=
                              ucast (min (want_alloc div ucast (elt_size array))
                                         (ucast G_MAXUINT))\<rparr>)
          else Inr array)"


subsection \<open>Creation\<close>

text \<open>
  \<open>g_array_sized_new\<close>. On this platform \<open>UINT_WIDTH / 8 < GLIB_SIZEOF_SIZE_T\<close>, so the
  second precondition of the source is compiled out.
\<close>

definition g_array_sized_new ::
  "bool \<Rightarrow> bool \<Rightarrow> bool \<Rightarrow> guint \<Rightarrow> guint \<Rightarrow> error + GRealArray" where
  "g_array_sized_new g_mem_gc_friendly zero_terminated' clear' elt_size' reserved_size =
     (if \<not> elt_size' > 0 then Inl Critical
      else
        let array = \<lparr>data = None, len = 0, elt_capacity = 0, elt_size = elt_size',
                     zero_terminated = zero_terminated', clear = clear',
                     ref_count = 1, clear_func = None\<rparr>
        in if zero_terminated array \<or> reserved_size \<noteq> 0 then
             (case g_array_maybe_expand g_mem_gc_friendly array reserved_size of
                Inl e \<Rightarrow> Inl e
              | Inr array \<Rightarrow>
                  if data array = None then Inl Assert_failed
                  else Inr (g_array_zero_terminate array))
           else Inr array)"

definition g_array_new :: "bool \<Rightarrow> bool \<Rightarrow> bool \<Rightarrow> guint \<Rightarrow> error + GRealArray" where
  "g_array_new g_mem_gc_friendly zero_terminated' clear' elt_size' =
     (if \<not> elt_size' > 0 then Inl Critical
      else g_array_sized_new g_mem_gc_friendly zero_terminated' clear' elt_size' 0)"

definition g_array_set_clear_func :: "GRealArray \<Rightarrow> (block \<Rightarrow> block) option \<Rightarrow> GRealArray" where
  "g_array_set_clear_func array f = array\<lparr>clear_func := f\<rparr>"

subsection \<open>Calls of the clear function, and what a call leaves behind\<close>

text \<open>
  What the outside world sees of a call besides the array: which elements were handed to
  \<open>clear_func\<close> (by index), and that the data block was handed to \<open>g_free\<close>, in the order
  in which it happened.
\<close>

datatype event = Clear_elt guint | Free_data

text \<open>\<open>array->clear_func (g_array_elt_pos (array, i))\<close>, for a non-\<open>NULL\<close> \<open>clear_func\<close>.\<close>

definition call_clear_func :: "GRealArray \<Rightarrow> guint \<Rightarrow> GRealArray" where
  "call_clear_func array i =
     (case clear_func array of
        None \<Rightarrow> array
      | Some f \<Rightarrow>
          array\<lparr>data :=
            map_option
              (\<lambda>b. blk_write b (g_array_elt_pos array i)
                     (take (unat (elt_size array))
                        (f (blk_read b (g_array_elt_pos array i) (unat (elt_size array))))))
              (data array)\<rparr>)"

text \<open>
  \<open>for (i = 0; i < length; i++) array->clear_func (g_array_elt_pos (array, index' + i));\<close>
  entered at the given \<open>i\<close>.
\<close>

function clear_loop ::
  "GRealArray \<Rightarrow> guint \<Rightarrow> guint \<Rightarrow> guint \<Rightarrow> event list \<Rightarrow> GRealArray \<times> event list" where
  "clear_loop array index' length' i evs =
     (if i < length'
      then clear_loop (call_clear_func array (index' + i)) index' length' (i + 1)
             (evs @ [Clear_elt (index' + i)])
      else (array, evs))"
  by pat_completeness auto
termination
proof (relation "measure (\<lambda>(array, index', length', i, evs). unat length' - unat i)")
  show "wf (measure (\<lambda>(array, index', length', i, evs). unat length' - unat i))"
    by simp
next
  fix array :: GRealArray and index' length' i :: guint and evs :: "event list"
  assume lt: "i < length'"
  then have less: "unat i < unat length'" by (simp add: word_less_nat_alt)
  moreover have "unat length' < 2 ^ 32" using unsigned_less [of length', where 'a=nat] by simp
  ultimately have "unat i + unat (1 :: guint) < 2 ^ LENGTH(32)" by simp
  then have "unat (i + 1) = unat i + 1"
    by (simp only: unat_add_lem [THEN iffD1]) simp
  with less show "((call_clear_func array (index' + i), index', length', i + 1,
                     evs @ [Clear_elt (index' + i)]),
                    (array, index', length', i, evs))
                   \<in> measure (\<lambda>(array, index', length', i, evs). unat length' - unat i)"
    by simp
qed

declare clear_loop.simps [simp del]

subsection \<open>Stealing and freeing\<close>

text \<open>
  \<open>g_array_steal\<close> returns the segment, the value stored through \<open>len\<close>, and the array as it
  is left.
\<close>

definition g_array_steal :: "GRealArray \<Rightarrow> block option \<times> gsize \<times> GRealArray" where
  "g_array_steal array =
     (let segment = data array;
          len_out = ucast (len array)
      in (segment, len_out, array\<lparr>data := None, len := 0, elt_capacity := 0\<rparr>))"

definition g_array_ref :: "GRealArray \<Rightarrow> GRealArray" where
  "g_array_ref array = array\<lparr>ref_count := ref_count array + 1\<rparr>"

datatype ArrayFreeFlag = FREE_SEGMENT | PRESERVE_WRAPPER

text \<open>
  \<open>array_free\<close> returns the segment it hands back, the wrapper if it is preserved (\<open>None\<close>
  once it is released), and the events of the call.
\<close>

definition array_free ::
  "GRealArray \<Rightarrow> ArrayFreeFlag set \<Rightarrow> block option \<times> GRealArray option \<times> event list" where
  "array_free array flags =
     (let (array, segment, evs) =
            (if FREE_SEGMENT \<in> flags then
               let (array, evs) =
                     (if clear_func array \<noteq> None
                      then clear_loop array 0 (len array) 0 []
                      else (array, []))
               in (array, None, evs @ [Free_data])
             else (array, data array, []))
      in if PRESERVE_WRAPPER \<in> flags
         then (segment, Some (array\<lparr>data := None, len := 0, elt_capacity := 0\<rparr>), evs)
         else (segment, None, evs))"

text \<open>\<open>g_atomic_ref_count_dec\<close>: the decremented count, and whether it reached zero.\<close>

definition g_atomic_ref_count_dec :: "GRealArray \<Rightarrow> GRealArray \<times> bool" where
  "g_atomic_ref_count_dec array =
     (array\<lparr>ref_count := ref_count array - 1\<rparr>, ref_count array - 1 = 0)"

definition g_array_unref :: "GRealArray \<Rightarrow> GRealArray option \<times> event list" where
  "g_array_unref array =
     (let (array, is_zero) = g_atomic_ref_count_dec array
      in if is_zero
         then (let (segment, wrapper, evs) = array_free array {FREE_SEGMENT} in (wrapper, evs))
         else (Some array, []))"

definition g_array_free ::
  "GRealArray \<Rightarrow> bool \<Rightarrow> block option \<times> GRealArray option \<times> event list" where
  "g_array_free array free_segment =
     (let flags = (if free_segment then {FREE_SEGMENT} else {});
          (array, is_zero) = g_atomic_ref_count_dec array;
          flags = (if \<not> is_zero then flags \<union> {PRESERVE_WRAPPER} else flags)
      in array_free array flags)"


subsection \<open>Removing\<close>

text \<open>
  \<open>memmove\<close> and \<open>memcpy\<close> between two offsets of the block of the array, and \<open>memcpy\<close>
  of caller memory (a list of bytes) into it.
\<close>

definition mem_move :: "block option \<Rightarrow> nat \<Rightarrow> nat \<Rightarrow> nat \<Rightarrow> block option" where
  "mem_move mem dst src n = map_option (\<lambda>b. blk_write b dst (blk_read b src n)) mem"

definition mem_copy_in :: "block option \<Rightarrow> nat \<Rightarrow> block \<Rightarrow> nat \<Rightarrow> block option" where
  "mem_copy_in mem dst vals n = map_option (\<lambda>b. blk_write b dst (take n vals)) mem"

text \<open>The epilogue shared by the three removal functions.\<close>

definition after_remove :: "bool \<Rightarrow> GRealArray \<Rightarrow> guint \<Rightarrow> GRealArray" where
  "after_remove g_mem_gc_friendly array n =
     (if g_mem_gc_friendly then g_array_elt_zero array (len array) n
      else g_array_zero_terminate array)"

definition g_array_remove_index ::
  "bool \<Rightarrow> GRealArray \<Rightarrow> guint \<Rightarrow> error + GRealArray \<times> event list" where
  "g_array_remove_index g_mem_gc_friendly array index' =
     (if \<not> index' < len array then Inl Critical
      else
        let (array, evs) =
              (if clear_func array \<noteq> None
               then (call_clear_func array index', [Clear_elt index'])
               else (array, []));
            array =
              (if index' \<noteq> len array - 1
               then array\<lparr>data := mem_move (data array) (g_array_elt_pos array index')
                                    (g_array_elt_pos array (index' + 1))
                                    (unat (g_array_elt_len array (len array - index' - 1)))\<rparr>
               else array);
            array = array\<lparr>len := len array - 1\<rparr>
        in Inr (after_remove g_mem_gc_friendly array 1, evs))"

definition g_array_remove_index_fast ::
  "bool \<Rightarrow> GRealArray \<Rightarrow> guint \<Rightarrow> error + GRealArray \<times> event list" where
  "g_array_remove_index_fast g_mem_gc_friendly array index' =
     (if \<not> index' < len array then Inl Critical
      else
        let (array, evs) =
              (if clear_func array \<noteq> None
               then (call_clear_func array index', [Clear_elt index'])
               else (array, []));
            array =
              (if index' \<noteq> len array - 1
               then array\<lparr>data := mem_move (data array) (g_array_elt_pos array index')
                                    (g_array_elt_pos array (len array - 1))
                                    (unat (g_array_elt_len array 1))\<rparr>
               else array);
            array = array\<lparr>len := len array - 1\<rparr>
        in Inr (after_remove g_mem_gc_friendly array 1, evs))"

definition g_array_remove_range ::
  "bool \<Rightarrow> GRealArray \<Rightarrow> guint \<Rightarrow> guint \<Rightarrow> error + GRealArray \<times> event list" where
  "g_array_remove_range g_mem_gc_friendly array index' length' =
     (if \<not> index' \<le> len array then Inl Critical
      else if \<not> index' \<le> G_MAXUINT - length' then Inl Critical
      else if \<not> index' + length' \<le> len array then Inl Critical
      else if length' = 0 then Inr (array, [])
      else
        let (array, evs) =
              (if clear_func array \<noteq> None
               then clear_loop array index' length' 0 []
               else (array, []));
            array =
              (if index' + length' \<noteq> len array
               then array\<lparr>data := mem_move (data array) (g_array_elt_pos array index')
                                    (g_array_elt_pos array (index' + length'))
                                    (unat (g_array_elt_len array
                                             (len array - (index' + length'))))\<rparr>
               else array);
            array = array\<lparr>len := len array - length'\<rparr>
        in Inr (after_remove g_mem_gc_friendly array length', evs))"

subsection \<open>Resizing and adding\<close>

text \<open>
  \<open>g_array_set_size\<close> ignores what \<open>g_array_remove_range\<close> returns: were the latter to
  reject its arguments, the array would go on unchanged.
\<close>

definition g_array_set_size ::
  "bool \<Rightarrow> GRealArray \<Rightarrow> guint \<Rightarrow> error + GRealArray \<times> event list" where
  "g_array_set_size g_mem_gc_friendly array length' =
     (let finish = (\<lambda>(array, evs).
            let array = array\<lparr>len := length'\<rparr>
            in Inr (if data array \<noteq> None then g_array_zero_terminate array else array, evs))
      in if length' > len array then
           (case g_array_maybe_expand g_mem_gc_friendly array (length' - len array) of
              Inl e \<Rightarrow> Inl e
            | Inr array \<Rightarrow>
                finish (if clear array
                        then g_array_elt_zero array (len array) (length' - len array)
                        else array, []))
         else if length' < len array then
           (case g_array_remove_range g_mem_gc_friendly array length' (len array - length') of
              Inr r \<Rightarrow> finish r
            | Inl Critical \<Rightarrow> finish (array, [])
            | Inl e \<Rightarrow> Inl e)
         else finish (array, []))"

definition g_array_append_vals ::
  "bool \<Rightarrow> GRealArray \<Rightarrow> block \<Rightarrow> guint \<Rightarrow> error + GRealArray" where
  "g_array_append_vals g_mem_gc_friendly array vals n =
     (if n = 0 then Inr array
      else
        case g_array_maybe_expand g_mem_gc_friendly array n of
          Inl e \<Rightarrow> Inl e
        | Inr array \<Rightarrow>
            let array = array\<lparr>data := mem_copy_in (data array) (g_array_elt_pos array (len array))
                                       vals (unat (g_array_elt_len array n))\<rparr>;
                array = array\<lparr>len := len array + n\<rparr>
            in Inr (g_array_zero_terminate array))"

definition g_array_prepend_vals ::
  "bool \<Rightarrow> GRealArray \<Rightarrow> block \<Rightarrow> guint \<Rightarrow> error + GRealArray" where
  "g_array_prepend_vals g_mem_gc_friendly array vals n =
     (if n = 0 then Inr array
      else
        case g_array_maybe_expand g_mem_gc_friendly array n of
          Inl e \<Rightarrow> Inl e
        | Inr array \<Rightarrow>
            let array = array\<lparr>data := mem_move (data array) (g_array_elt_pos array n)
                                       (g_array_elt_pos array 0)
                                       (unat (g_array_elt_len array (len array)))\<rparr>;
                array = array\<lparr>data := mem_copy_in (data array) (g_array_elt_pos array 0)
                                       vals (unat (g_array_elt_len array n))\<rparr>;
                array = array\<lparr>len := len array + n\<rparr>
            in Inr (g_array_zero_terminate array))"

definition g_array_insert_vals ::
  "bool \<Rightarrow> GRealArray \<Rightarrow> guint \<Rightarrow> block \<Rightarrow> guint \<Rightarrow> error + GRealArray" where
  "g_array_insert_vals g_mem_gc_friendly array index' vals n =
     (if n = 0 then Inr array
      else if index' \<ge> len array then
        (case g_array_maybe_expand g_mem_gc_friendly array (index' - len array + n) of
           Inl e \<Rightarrow> Inl e
         | Inr array \<Rightarrow>
             (case g_array_set_size g_mem_gc_friendly array index' of
                Inl e \<Rightarrow> Inl e
              | Inr (array, evs) \<Rightarrow> g_array_append_vals g_mem_gc_friendly array vals n))
      else
        case g_array_maybe_expand g_mem_gc_friendly array n of
          Inl e \<Rightarrow> Inl e
        | Inr array \<Rightarrow>
            let array = array\<lparr>data := mem_move (data array) (g_array_elt_pos array (n + index'))
                                       (g_array_elt_pos array index')
                                       (unat (g_array_elt_len array (len array - index')))\<rparr>;
                array = array\<lparr>data := mem_copy_in (data array) (g_array_elt_pos array index')
                                       vals (unat (g_array_elt_len array n))\<rparr>;
                array = array\<lparr>len := len array + n\<rparr>
            in Inr (g_array_zero_terminate array))"


subsection \<open>Reading elements\<close>

text \<open>
  The bytes of element \<open>i\<close>, which is what a comparison function reads through the pointer
  \<open>g_array_elt_pos (array, i)\<close>.
\<close>

definition g_array_elt :: "GRealArray \<Rightarrow> guint \<Rightarrow> block" where
  "g_array_elt array i =
     (case data array of
        None \<Rightarrow> []
      | Some b \<Rightarrow> blk_read b (g_array_elt_pos array i) (unat (elt_size array)))"

text \<open>The live elements of an array, in index order.\<close>

definition g_array_elts :: "GRealArray \<Rightarrow> block list" where
  "g_array_elts array = map (\<lambda>i. g_array_elt array (of_nat i)) [0..<unat (len array)]"

subsection \<open>Binary search\<close>

text \<open>
  The \<open>while (left <= right)\<close> loop of \<open>g_array_binary_search\<close>. A comparison function
  returns a \<open>gint\<close>, of which the loop uses the sign only. The loop yields \<open>result\<close> and
  \<open>middle\<close>; \<open>None\<close> stands for a loop that does not end.
\<close>

partial_function (option) binary_search_loop ::
  "GRealArray \<Rightarrow> (block \<Rightarrow> 't \<Rightarrow> int) \<Rightarrow> 't \<Rightarrow> guint \<Rightarrow> guint \<Rightarrow> guint
     \<Rightarrow> (bool \<times> guint) option" where
  "binary_search_loop array compare_func target left right middle =
     (if left \<le> right then
        let middle = left + (right - left) div 2;
            val = compare_func (g_array_elt array middle) target
        in if val = 0 then Some (True, middle)
           else if val < 0
           then binary_search_loop array compare_func target (middle + 1) right middle
           else if middle > 0
           then binary_search_loop array compare_func target left (middle - 1) middle
           else Some (False, middle)
      else Some (False, middle))"

text \<open>
  \<open>g_array_binary_search\<close> returns its result, what it stores through \<open>out_match_index\<close>
  (\<open>None\<close> when it stores nothing), and the array as it leaves it.
\<close>

definition g_array_binary_search ::
  "GRealArray \<Rightarrow> 't \<Rightarrow> (block \<Rightarrow> 't \<Rightarrow> int) \<Rightarrow> (bool \<times> guint option \<times> GRealArray) option" where
  "g_array_binary_search array target compare_func =
     (if len array \<noteq> 0 then
        (case binary_search_loop array compare_func target 0 (len array - 1) 0 of
           None \<Rightarrow> None
         | Some (result, middle) \<Rightarrow>
             Some (result, if result then Some middle else None, array))
      else Some (False, None, array))"

subsection \<open>Sorting\<close>

text \<open>
  Modelled from the spec: \<open>g_sort_array\<close> of glib/gqsort.c, which is not among the sources.
  The spec requires of it "a stable sort (ties preserve relative input order)" and names
  merge sort as an acceptable algorithm; the model is a top-down merge sort that takes from
  the left run on a tie. It sorts the first \<open>n_elements\<close> elements of \<open>element_size\<close> bytes
  of a block in place.
\<close>

fun merge_runs :: "('a \<Rightarrow> 'a \<Rightarrow> int) \<Rightarrow> 'a list \<Rightarrow> 'a list \<Rightarrow> 'a list" where
  "merge_runs cmp [] ys = ys"
| "merge_runs cmp (x # xs) [] = x # xs"
| "merge_runs cmp (x # xs) (y # ys) =
     (if cmp x y \<le> 0 then x # merge_runs cmp xs (y # ys)
      else y # merge_runs cmp (x # xs) ys)"

fun msort_with :: "('a \<Rightarrow> 'a \<Rightarrow> int) \<Rightarrow> 'a list \<Rightarrow> 'a list" where
  "msort_with cmp xs =
     (if length xs \<le> 1 then xs
      else merge_runs cmp (msort_with cmp (take (length xs div 2) xs))
                          (msort_with cmp (drop (length xs div 2) xs)))"

declare msort_with.simps [simp del]

definition blk_elements :: "block \<Rightarrow> nat \<Rightarrow> nat \<Rightarrow> block list" where
  "blk_elements blk n_elements element_size =
     map (\<lambda>i. blk_read blk (element_size * i) element_size) [0..<n_elements]"

definition g_sort_array ::
  "block \<Rightarrow> nat \<Rightarrow> nat \<Rightarrow> (block \<Rightarrow> block \<Rightarrow> 'u \<Rightarrow> int) \<Rightarrow> 'u \<Rightarrow> block" where
  "g_sort_array blk n_elements element_size compare_func user_data =
     blk_write blk 0
       (concat (msort_with (\<lambda>a b. compare_func a b user_data)
                  (blk_elements blk n_elements element_size)))"

definition g_array_sort_with_data ::
  "GRealArray \<Rightarrow> (block \<Rightarrow> block \<Rightarrow> 'u \<Rightarrow> int) \<Rightarrow> 'u \<Rightarrow> GRealArray" where
  "g_array_sort_with_data array compare_func user_data =
     (if len array > 0
      then array\<lparr>data :=
             map_option
               (\<lambda>b. g_sort_array b (unat (len array)) (unat (elt_size array))
                      compare_func user_data)
               (data array)\<rparr>
      else array)"

text \<open>
  \<open>g_array_sort\<close> casts its two-argument comparison function to a \<open>GCompareDataFunc\<close> and
  passes \<open>NULL\<close> as user data.
\<close>

definition g_array_sort :: "GRealArray \<Rightarrow> (block \<Rightarrow> block \<Rightarrow> int) \<Rightarrow> GRealArray" where
  "g_array_sort array compare_func =
     (if len array > 0
      then array\<lparr>data :=
             map_option
               (\<lambda>b. g_sort_array b (unat (len array)) (unat (elt_size array))
                      (\<lambda>a b (u :: unit). compare_func a b) ())
               (data array)\<rparr>
      else array)"

subsection \<open>Sequences of operations on one array\<close>

datatype array_op =
    Append_vals block guint
  | Prepend_vals block guint
  | Insert_vals guint block guint
  | Remove_index guint
  | Remove_index_fast guint
  | Remove_range guint guint
  | Set_size guint
  | Steal
  | Free bool
  | Ref
  | Unref
  | Set_clear_func "(block \<Rightarrow> block) option"

text \<open>
  One call on a live array. The outcome is the array as the call leaves it, or \<open>None\<close> when
  there is no array to go on with: the wrapper was released, or the process was aborted. A
  call that fails a \<open>g_return_val_if_fail\<close> check leaves the array as it was.
\<close>

definition keep_going :: "GRealArray \<Rightarrow> error + GRealArray \<Rightarrow> GRealArray option" where
  "keep_going array r =
     (case r of Inr array' \<Rightarrow> Some array' | Inl Critical \<Rightarrow> Some array | Inl e \<Rightarrow> None)"

fun array_step :: "bool \<Rightarrow> GRealArray \<Rightarrow> array_op \<Rightarrow> GRealArray option" where
  "array_step gc array (Append_vals vals n) =
     keep_going array (g_array_append_vals gc array vals n)"
| "array_step gc array (Prepend_vals vals n) =
     keep_going array (g_array_prepend_vals gc array vals n)"
| "array_step gc array (Insert_vals i vals n) =
     keep_going array (g_array_insert_vals gc array i vals n)"
| "array_step gc array (Remove_index i) =
     keep_going array (map_sum id fst (g_array_remove_index gc array i))"
| "array_step gc array (Remove_index_fast i) =
     keep_going array (map_sum id fst (g_array_remove_index_fast gc array i))"
| "array_step gc array (Remove_range i n) =
     keep_going array (map_sum id fst (g_array_remove_range gc array i n))"
| "array_step gc array (Set_size n) =
     keep_going array (map_sum id fst (g_array_set_size gc array n))"
| "array_step gc array Steal = Some (snd (snd (g_array_steal array)))"
| "array_step gc array (Free free_segment) = fst (snd (g_array_free array free_segment))"
| "array_step gc array Ref = Some (g_array_ref array)"
| "array_step gc array Unref = fst (g_array_unref array)"
| "array_step gc array (Set_clear_func f) = Some (g_array_set_clear_func array f)"

fun array_run :: "bool \<Rightarrow> GRealArray option \<Rightarrow> array_op list \<Rightarrow> GRealArray option" where
  "array_run gc None ops = None"
| "array_run gc (Some array) [] = Some array"
| "array_run gc (Some array) (x # ops) = array_run gc (array_step gc array x) ops"

section \<open>g_file_set_contents_full (glib/gfileutils.c): the environment\<close>

text \<open>
  The model is that of a POSIX build (\<open>G_OS_WIN32\<close> undefined) with \<open>HAVE_FSYNC\<close>,
  \<open>HAVE_FALLOCATE\<close> and \<open>O_NOFOLLOW\<close>, on Linux (a symbolic link opened with
  \<open>O_NOFOLLOW\<close> gives \<open>ELOOP\<close>).

  The file system is a flat map from path names to nodes. A file descriptor is the path it was
  opened on and a file offset; nothing in the function unlinks or renames a file between
  opening it and the last use of its descriptor, except on paths that stop using it at once.
\<close>

type_synonym bytes = "8 word list"

datatype node = Regular bytes nat | Symlink string

datatype errno = EINTR | ENOENT | EEXIST | ELOOP | EACCES | ENOSPC | EIO | EINVAL

datatype syscall =
    Sys_open string
  | Sys_stat string
  | Sys_lstat string
  | Sys_fchmod string
  | Sys_fallocate string
  | Sys_write string
  | Sys_ftruncate string
  | Sys_fsync string
  | Sys_close string
  | Sys_rename string string
  | Sys_unlink string

text \<open>
  The state a call works on: the file system, the system calls made so far, and the static
  \<open>counter\<close> of \<open>get_tmp_file\<close>.
\<close>

record world =
  files :: "string \<Rightarrow> node option"
  trace :: "syscall list"
  tmp_counter :: guint

text \<open>What \<open>write\<close> answers: the number of bytes it took, or \<open>-1\<close> with an \<open>errno\<close>.\<close>

datatype write_result = Wrote nat | Write_failed errno

text \<open>
  What the kernel decides by itself during one call of \<open>g_file_set_contents_full\<close>: the
  clock, and which system calls fail for reasons outside the model (permissions, a full or
  failing disk, signals). \<open>write\<close> and \<open>ftruncate\<close> are called in loops, so their answers
  are scripts, one entry per call; a loop that asks for more answers than the script holds has
  not returned, which is the result \<open>None\<close>. \<open>unlink\<close> of a file that exists succeeds.
\<close>

record kernel =
  real_time :: "64 word"
  open_fault :: "string \<Rightarrow> errno option"
  stat_fault :: "errno option"
  lstat_fault :: "errno option"
  fchmod_fault :: "errno option"
  fallocate_fault :: "errno option"
  write_script :: "write_result list"
  ftruncate_script :: "errno option list"
  fsync_fault :: "string \<Rightarrow> errno option"
  close_fault :: "errno option"
  rename_fault :: "errno option"

record fd =
  fd_path :: string
  fd_off :: nat

definition called :: "syscall \<Rightarrow> world \<Rightarrow> world" where
  "called c w = w\<lparr>trace := trace w @ [c]\<rparr>"

subsection \<open>System calls\<close>

text \<open>\<open>open (path, flags | O_CREAT | O_EXCL, mode)\<close>.\<close>

definition sys_open_excl :: "kernel \<Rightarrow> world \<Rightarrow> string \<Rightarrow> nat \<Rightarrow> (errno + fd) \<times> world" where
  "sys_open_excl k w path mode =
     (let w = called (Sys_open path) w
      in if files w path \<noteq> None then (Inl EEXIST, w)
         else case open_fault k path of
                Some e \<Rightarrow> (Inl e, w)
              | None \<Rightarrow> (Inr \<lparr>fd_path = path, fd_off = 0\<rparr>,
                         w\<lparr>files := (files w)(path \<mapsto> Regular [] mode)\<rparr>))"

text \<open>\<open>open (path, O_RDWR | O_CREAT | O_CLOEXEC | O_NOFOLLOW, mode)\<close>.\<close>

definition sys_open_nofollow :: "kernel \<Rightarrow> world \<Rightarrow> string \<Rightarrow> nat \<Rightarrow> (errno + fd) \<times> world" where
  "sys_open_nofollow k w path mode =
     (let w = called (Sys_open path) w
      in case files w path of
           Some (Symlink t) \<Rightarrow> (Inl ELOOP, w)
         | Some (Regular c m) \<Rightarrow>
             (case open_fault k path of
                Some e \<Rightarrow> (Inl e, w)
              | None \<Rightarrow> (Inr \<lparr>fd_path = path, fd_off = 0\<rparr>, w))
         | None \<Rightarrow>
             (case open_fault k path of
                Some e \<Rightarrow> (Inl e, w)
              | None \<Rightarrow> (Inr \<lparr>fd_path = path, fd_off = 0\<rparr>,
                         w\<lparr>files := (files w)(path \<mapsto> Regular [] mode)\<rparr>)))"

text \<open>\<open>open (dir, O_RDONLY | O_CLOEXEC, 0)\<close> of a directory; directories are not nodes of the model.\<close>

definition sys_open_dir :: "kernel \<Rightarrow> world \<Rightarrow> string \<Rightarrow> (errno + fd) \<times> world" where
  "sys_open_dir k w path =
     (let w = called (Sys_open path) w
      in case open_fault k path of
           Some e \<Rightarrow> (Inl e, w)
         | None \<Rightarrow> (Inr \<lparr>fd_path = path, fd_off = 0\<rparr>, w))"

text \<open>Following symbolic links, at most as many as the first argument says.\<close>

fun follow :: "nat \<Rightarrow> (string \<Rightarrow> node option) \<Rightarrow> string \<Rightarrow> errno + bytes \<times> nat" where
  "follow 0 f path = Inl ELOOP"
| "follow (Suc n) f path =
     (case f path of
        None \<Rightarrow> Inl ENOENT
      | Some (Regular c m) \<Rightarrow> Inr (c, m)
      | Some (Symlink t) \<Rightarrow> follow n f t)"

text \<open>\<open>stat\<close> yields the mode of the file; \<open>lstat\<close> yields \<open>st_size\<close>.\<close>

definition sys_stat :: "kernel \<Rightarrow> world \<Rightarrow> string \<Rightarrow> (errno + nat) \<times> world" where
  "sys_stat k w path =
     (let w = called (Sys_stat path) w
      in case stat_fault k of
           Some e \<Rightarrow> (Inl e, w)
         | None \<Rightarrow> (map_sum id snd (follow 40 (files w) path), w))"

definition sys_lstat :: "kernel \<Rightarrow> world \<Rightarrow> string \<Rightarrow> (errno + nat) \<times> world" where
  "sys_lstat k w path =
     (let w = called (Sys_lstat path) w
      in case lstat_fault k of
           Some e \<Rightarrow> (Inl e, w)
         | None \<Rightarrow>
             (case files w path of
                None \<Rightarrow> (Inl ENOENT, w)
              | Some (Regular c m) \<Rightarrow> (Inr (length c), w)
              | Some (Symlink t) \<Rightarrow> (Inr (length t), w)))"

definition set_mode :: "nat \<Rightarrow> node \<Rightarrow> node" where
  "set_mode m n = (case n of Regular c m' \<Rightarrow> Regular c m | Symlink t \<Rightarrow> Symlink t)"

definition set_bytes :: "(bytes \<Rightarrow> bytes) \<Rightarrow> node \<Rightarrow> node" where
  "set_bytes g n = (case n of Regular c m \<Rightarrow> Regular (g c) m | Symlink t \<Rightarrow> Symlink t)"

definition update_node :: "world \<Rightarrow> string \<Rightarrow> (node \<Rightarrow> node) \<Rightarrow> world" where
  "update_node w path g = w\<lparr>files := (files w)(path := map_option g (files w path))\<rparr>"

definition sys_fchmod :: "kernel \<Rightarrow> world \<Rightarrow> fd \<Rightarrow> nat \<Rightarrow> errno option \<times> world" where
  "sys_fchmod k w d mode =
     (let w = called (Sys_fchmod (fd_path d)) w
      in case fchmod_fault k of
           Some e \<Rightarrow> (Some e, w)
         | None \<Rightarrow> (None, update_node w (fd_path d) (set_mode mode)))"

text \<open>
  \<open>fallocate (fd, 0, offset, len)\<close> extends the file with zero bytes to \<open>offset + len\<close> when it is
  shorter.
\<close>

definition sys_fallocate :: "kernel \<Rightarrow> world \<Rightarrow> fd \<Rightarrow> nat \<Rightarrow> nat \<Rightarrow> errno option \<times> world" where
  "sys_fallocate k w d off n =
     (let w = called (Sys_fallocate (fd_path d)) w
      in case fallocate_fault k of
           Some e \<Rightarrow> (Some e, w)
         | None \<Rightarrow>
             (None, update_node w (fd_path d)
                      (set_bytes (\<lambda>c. c @ replicate (off + n - length c) 0))))"

text \<open>
  A successful \<open>write\<close> of \<open>bs\<close> at the offset of the descriptor, which it advances. A
  write past the end of the file fills the gap with zero bytes; a write of no bytes changes
  nothing.
\<close>

definition write_at :: "nat \<Rightarrow> bytes \<Rightarrow> bytes \<Rightarrow> bytes" where
  "write_at off bs c =
     (if bs = [] then c
      else take off (c @ replicate (off - length c) 0) @ bs @ drop (off + length bs) c)"

definition sys_write_ok :: "world \<Rightarrow> fd \<Rightarrow> bytes \<Rightarrow> fd \<times> world" where
  "sys_write_ok w d bs =
     (d\<lparr>fd_off := fd_off d + length bs\<rparr>,
      update_node w (fd_path d) (set_bytes (write_at (fd_off d) bs)))"

definition sys_ftruncate_ok :: "world \<Rightarrow> fd \<Rightarrow> nat \<Rightarrow> world" where
  "sys_ftruncate_ok w d n =
     update_node w (fd_path d) (set_bytes (\<lambda>c. take n (c @ replicate (n - length c) 0)))"

definition sys_fsync :: "kernel \<Rightarrow> world \<Rightarrow> fd \<Rightarrow> errno option \<times> world" where
  "sys_fsync k w d = (fsync_fault k (fd_path d), called (Sys_fsync (fd_path d)) w)"

definition sys_close :: "kernel \<Rightarrow> world \<Rightarrow> fd \<Rightarrow> errno option \<times> world" where
  "sys_close k w d = (close_fault k, called (Sys_close (fd_path d)) w)"

definition sys_rename :: "kernel \<Rightarrow> world \<Rightarrow> string \<Rightarrow> string \<Rightarrow> errno option \<times> world" where
  "sys_rename k w old_name new_name =
     (let w = called (Sys_rename old_name new_name) w
      in case rename_fault k of
           Some e \<Rightarrow> (Some e, w)
         | None \<Rightarrow>
             (case files w old_name of
                None \<Rightarrow> (Some ENOENT, w)
              | Some n \<Rightarrow> (None, w\<lparr>files := (files w)(new_name \<mapsto> n, old_name := None)\<rparr>)))"

definition sys_unlink :: "world \<Rightarrow> string \<Rightarrow> world" where
  "sys_unlink w path = (called (Sys_unlink path) w)\<lparr>files := (files w)(path := None)\<rparr>"


section \<open>g_file_set_contents_full: the functions\<close>

text \<open>
  The flags of \<open>GFileSetContentsFlags\<close> (declared in gfileutils.h) as a set; the empty set is
  \<open>G_FILE_SET_CONTENTS_NONE\<close>, and \<open>flags & F\<close> is membership.
\<close>

datatype GFileSetContentsFlag =
    G_FILE_SET_CONTENTS_CONSISTENT
  | G_FILE_SET_CONTENTS_DURABLE
  | G_FILE_SET_CONTENTS_ONLY_EXISTING

text \<open>
  A \<open>GError\<close> of the domain \<open>G_FILE_ERROR\<close>: which message it carries, the file name in the
  message, and the \<open>errno\<close> its code and text are derived from.
\<close>

datatype failed_step =
    Failed_to_create | Failed_to_set_permissions | Failed_write | Failed_fsync
  | Failed_close | Failed_rename | Failed_to_open | Failed_ftruncate

datatype gerror = GError failed_step string errno

text \<open>
  How a call ends: it returns \<open>TRUE\<close>; it returns \<open>FALSE\<close> with an error set; a
  \<open>g_return_val_if_fail\<close> check rejects the arguments (a critical warning, \<open>FALSE\<close>, no
  error set); or a \<open>g_assert\<close> aborts the process.
\<close>

datatype outcome = Success | Failed gerror | Rejected | Aborted

definition G_MAXSSIZE :: nat where
  "G_MAXSSIZE = 2 ^ 63 - 1"

subsection \<open>g_path_get_dirname\<close>

text \<open>
  \<open>strrchr\<close> finds the last separator; the loop then steps back over separators, not past the
  first character. On the reversed name: drop up to the last separator, then drop separators
  while more than one character is left.
\<close>

fun back_over_separators :: "string \<Rightarrow> string" where
  "back_over_separators [] = []"
| "back_over_separators (c # cs) =
     (if cs \<noteq> [] \<and> c = CHR ''/'' then back_over_separators cs else c # cs)"

definition g_path_get_dirname :: "string \<Rightarrow> string" where
  "g_path_get_dirname file_name =
     (if CHR ''/'' \<notin> set file_name then ''.''
      else rev (back_over_separators (dropWhile (\<lambda>c. c \<noteq> CHR ''/'') (rev file_name))))"

subsection \<open>Temporary files\<close>

definition letters :: string where
  "letters = ''ABCDEFGHIJKLMNOPQRSTUVWXYZ0123456789''"

definition NLETTERS :: "64 word" where
  "NLETTERS = 36"

text \<open>The six characters that \<open>get_tmp_file\<close> writes over \<open>XXXXXX\<close> for a given \<open>value\<close>.\<close>

definition random_bits :: "64 word \<Rightarrow> string" where
  "random_bits v0 =
     (let v1 = v0 div NLETTERS; v2 = v1 div NLETTERS; v3 = v2 div NLETTERS;
          v4 = v3 div NLETTERS; v5 = v4 div NLETTERS
      in map (\<lambda>v. letters ! unat (v mod NLETTERS)) [v0, v1, v2, v3, v4, v5])"

text \<open>\<open>g_strrstr\<close>: where the last occurrence of the needle starts.\<close>

definition g_strrstr :: "string \<Rightarrow> string \<Rightarrow> nat option" where
  "g_strrstr haystack needle =
     find (\<lambda>i. take (length needle) (drop i haystack) = needle)
       (rev [0..<Suc (length haystack - length needle)])"

text \<open>
  The loop of \<open>get_tmp_file\<close> with \<open>wrap_g_open\<close> as callback. The template is
  \<open>pre @ XXXXXX @ post\<close>; the loop returns it as last filled in.
\<close>

function get_tmp_file_loop ::
  "kernel \<Rightarrow> world \<Rightarrow> string \<Rightarrow> string \<Rightarrow> string \<Rightarrow> nat \<Rightarrow> nat \<Rightarrow> 64 word
     \<Rightarrow> (errno + fd) \<times> string \<times> world" where
  "get_tmp_file_loop k w pre tmpl post mode cnt v =
     (if cnt < 100 then
        let tmpl = pre @ random_bits v @ post
        in case sys_open_excl k w tmpl mode of
             (Inr d, w) \<Rightarrow> (Inr d, tmpl, w)
           | (Inl e, w) \<Rightarrow>
               if e \<noteq> EEXIST then (Inl e, tmpl, w)
               else get_tmp_file_loop k w pre tmpl post mode (cnt + 1) (v + 7777)
      else (Inl EEXIST, tmpl, w))"
  by pat_completeness auto
termination
  by (relation "measure (\<lambda>(k, w, pre, tmpl, post, mode, cnt, v). 100 - cnt)") auto

declare get_tmp_file_loop.simps [simp del]

definition get_tmp_file :: "kernel \<Rightarrow> world \<Rightarrow> string \<Rightarrow> nat \<Rightarrow> (errno + fd) \<times> string \<times> world" where
  "get_tmp_file k w tmpl mode =
     (case g_strrstr tmpl ''XXXXXX'' of
        None \<Rightarrow> (Inl EINVAL, tmpl, w)
      | Some i \<Rightarrow>
          let now_us = real_time k;
              v = ((now_us mod 1000000) XOR (now_us div 1000000)) + ucast (tmp_counter w);
              w = w\<lparr>tmp_counter := tmp_counter w + 1\<rparr>
          in get_tmp_file_loop k w (take i tmpl) tmpl (drop (i + 6) tmpl) mode 0 v)"

definition g_mkstemp_full :: "kernel \<Rightarrow> world \<Rightarrow> string \<Rightarrow> nat \<Rightarrow> (errno + fd) \<times> string \<times> world" where
  "g_mkstemp_full k w tmpl mode = get_tmp_file k w tmpl mode"

subsection \<open>The helpers\<close>

text \<open>\<open>rename_file\<close> returns the error it sets, \<open>None\<close> when it returns \<open>TRUE\<close>.\<close>

definition rename_file ::
  "kernel \<Rightarrow> world \<Rightarrow> string \<Rightarrow> string \<Rightarrow> bool \<Rightarrow> gerror option \<times> world" where
  "rename_file k w old_name new_name do_fsync =
     (case sys_rename k w old_name new_name of
        (Some e, w) \<Rightarrow> (Some (GError Failed_rename old_name e), w)
      | (None, w) \<Rightarrow>
          if do_fsync then
            let dir = g_path_get_dirname new_name
            in case sys_open_dir k w dir of
                 (Inr dir_fd, w) \<Rightarrow>
                   let (r, w) = sys_fsync k w dir_fd;
                       (r, w) = sys_close k w dir_fd
                   in (None, w)
               | (Inl e, w) \<Rightarrow> (None, w)
          else (None, w))"

definition fd_should_be_fsynced ::
  "kernel \<Rightarrow> world \<Rightarrow> fd \<Rightarrow> string \<Rightarrow> GFileSetContentsFlag set \<Rightarrow> bool \<times> world" where
  "fd_should_be_fsynced k w d test_file flags =
     (if (G_FILE_SET_CONTENTS_CONSISTENT \<in> flags \<or> G_FILE_SET_CONTENTS_DURABLE \<in> flags)
         \<and> G_FILE_SET_CONTENTS_ONLY_EXISTING \<in> flags
      then case sys_lstat k w test_file of
             (Inr st_size, w) \<Rightarrow> (st_size > 0, w)
           | (Inl e, w) \<Rightarrow> if e = ENOENT then (False, w) else (True, w)
      else (G_FILE_SET_CONTENTS_CONSISTENT \<in> flags \<or> G_FILE_SET_CONTENTS_DURABLE \<in> flags, w))"

text \<open>
  \<open>truncate_file\<close>: the \<open>while (ftruncate (fd, length) < 0)\<close> loop over the answers of the
  kernel.
\<close>

fun truncate_file ::
  "errno option list \<Rightarrow> world \<Rightarrow> fd \<Rightarrow> nat \<Rightarrow> string \<Rightarrow> (gerror option \<times> world) option" where
  "truncate_file [] w d n dest_file = None"
| "truncate_file (r # script) w d n dest_file =
     (let w = called (Sys_ftruncate (fd_path d)) w
      in case r of
           None \<Rightarrow> Some (None, sys_ftruncate_ok w d n)
         | Some saved_errno \<Rightarrow>
             if saved_errno = EINTR then truncate_file script w d n dest_file
             else Some (Some (GError Failed_ftruncate dest_file saved_errno), w))"

text \<open>
  The \<open>while (length > 0)\<close> loop of \<open>write_to_file\<close>. It ends with the error of a failed
  \<open>write\<close>, with the failed assertion \<open>s <= length\<close>, or with everything written.
\<close>

datatype write_loop_end = All_written | Write_error gerror | Assertion_failed

fun write_loop ::
  "write_result list \<Rightarrow> world \<Rightarrow> bytes \<Rightarrow> nat \<Rightarrow> fd \<Rightarrow> string
     \<Rightarrow> (write_loop_end \<times> fd \<times> world) option" where
  "write_loop script w contents n d dest_file =
     (if n > 0 then
        (case script of
           [] \<Rightarrow> None
         | r # script \<Rightarrow>
             let w = called (Sys_write (fd_path d)) w
             in (case r of
                   Write_failed saved_errno \<Rightarrow>
                     if saved_errno = EINTR then write_loop script w contents n d dest_file
                     else Some (Write_error (GError Failed_write dest_file saved_errno), d, w)
                 | Wrote s \<Rightarrow>
                     if \<not> s \<le> n then Some (Assertion_failed, d, w)
                     else
                       let (d, w) = sys_write_ok w d (take s (take (min n G_MAXSSIZE) contents))
                       in write_loop script w (drop s contents) (n - s) d dest_file))
      else Some (All_written, d, w))"

declare write_loop.simps [simp del]

definition write_to_file ::
  "kernel \<Rightarrow> world \<Rightarrow> bytes \<Rightarrow> nat \<Rightarrow> fd \<Rightarrow> string \<Rightarrow> bool \<Rightarrow> (outcome \<times> world) option" where
  "write_to_file k w contents n d dest_file do_fsync =
     (let w = (if n > 0 then snd (sys_fallocate k w d 0 n) else w)
      in case write_loop (write_script k) w contents n d dest_file of
           None \<Rightarrow> None
         | Some (Assertion_failed, d, w) \<Rightarrow> Some (Aborted, w)
         | Some (Write_error err, d, w) \<Rightarrow> Some (Failed err, snd (sys_close k w d))
         | Some (All_written, d, w) \<Rightarrow>
             (case (if do_fsync then sys_fsync k w d else (None, w)) of
                (Some saved_errno, w) \<Rightarrow>
                  Some (Failed (GError Failed_fsync dest_file saved_errno), snd (sys_close k w d))
              | (None, w) \<Rightarrow>
                  (case sys_close k w d of
                     (Some e, w) \<Rightarrow> Some (Failed (GError Failed_close dest_file e), w)
                   | (None, w) \<Rightarrow> Some (Success, w))))"

subsection \<open>g_file_set_contents_full\<close>

text \<open>
  \<open>contents\<close> is \<open>None\<close> for \<open>NULL\<close>, and otherwise the bytes found at the pointer; \<open>strlen\<close>
  counts them up to the first NUL.
\<close>

definition strlen :: "bytes \<Rightarrow> nat" where
  "strlen s = length (takeWhile (\<lambda>b. b \<noteq> 0) s)"

text \<open>The branch taken when \<open>G_FILE_SET_CONTENTS_CONSISTENT\<close> is set.\<close>

definition set_contents_consistent ::
  "kernel \<Rightarrow> world \<Rightarrow> string \<Rightarrow> bytes \<Rightarrow> nat \<Rightarrow> GFileSetContentsFlag set \<Rightarrow> nat
     \<Rightarrow> (outcome \<times> world) option" where
  "set_contents_consistent k w filename contents n flags mode =
     (let tmp_filename = filename @ ''.XXXXXX''
      in case g_mkstemp_full k w tmp_filename mode of
           (Inl saved_errno, tmp_filename, w) \<Rightarrow>
             Some (Failed (GError Failed_to_create tmp_filename saved_errno), w)
         | (Inr d, tmp_filename, w) \<Rightarrow>
             (case (case sys_stat k w filename of
                      (Inr st_mode, w) \<Rightarrow> sys_fchmod k w d st_mode
                    | (Inl e, w) \<Rightarrow> (None, w)) of
                (Some saved_errno, w) \<Rightarrow>
                  Some (Failed (GError Failed_to_set_permissions tmp_filename saved_errno),
                        sys_unlink w tmp_filename)
              | (None, w) \<Rightarrow>
                  let (do_fsync, w) = fd_should_be_fsynced k w d filename flags
                  in (case write_to_file k w contents n d tmp_filename do_fsync of
                        None \<Rightarrow> None
                      | Some (Aborted, w) \<Rightarrow> Some (Aborted, w)
                      | Some (Rejected, w) \<Rightarrow> Some (Rejected, w)
                      | Some (Failed err, w) \<Rightarrow> Some (Failed err, sys_unlink w tmp_filename)
                      | Some (Success, w) \<Rightarrow>
                          (case rename_file k w tmp_filename filename do_fsync of
                             (Some rename_error, w) \<Rightarrow>
                               Some (Failed rename_error, sys_unlink w tmp_filename)
                           | (None, w) \<Rightarrow> Some (Success, w)))))"

text \<open>The branch taken otherwise, up to a failing \<open>g_open\<close>: \<open>Inl\<close> is its \<open>errno\<close>.\<close>

definition set_contents_direct ::
  "kernel \<Rightarrow> world \<Rightarrow> string \<Rightarrow> bytes \<Rightarrow> nat \<Rightarrow> GFileSetContentsFlag set \<Rightarrow> nat
     \<Rightarrow> (errno \<times> world + (outcome \<times> world) option)" where
  "set_contents_direct k w filename contents n flags mode =
     (case sys_open_nofollow k w filename mode of
        (Inl saved_errno, w) \<Rightarrow> Inl (saved_errno, w)
      | (Inr direct_fd, w) \<Rightarrow>
          Inr (let (do_fsync, w) = fd_should_be_fsynced k w direct_fd filename flags
               in case truncate_file (ftruncate_script k) w direct_fd 0 filename of
                    None \<Rightarrow> None
                  | Some (Some err, w) \<Rightarrow> Some (Failed err, w)
                  | Some (None, w) \<Rightarrow>
                      write_to_file k w contents n direct_fd filename do_fsync))"

text \<open>
  \<open>g_file_set_contents_full\<close>. \<open>length\<close> is a \<open>gssize\<close>. On \<open>ELOOP\<close> the source calls itself
  with the consistent flag added and the length already computed; that call passes the checks
  again and takes the consistent branch.
\<close>

definition g_file_set_contents_full ::
  "kernel \<Rightarrow> world \<Rightarrow> string \<Rightarrow> bytes option \<Rightarrow> int \<Rightarrow> GFileSetContentsFlag set \<Rightarrow> nat
     \<Rightarrow> (outcome \<times> world) option" where
  "g_file_set_contents_full k w filename contents length' flags mode =
     (if \<not> (contents \<noteq> None \<or> length' = 0) then Some (Rejected, w)
      else if \<not> length' \<ge> -1 then Some (Rejected, w)
      else
        let buf = (case contents of None \<Rightarrow> [] | Some b \<Rightarrow> b);
            n = (if length' < 0 then strlen buf else nat length')
        in if G_FILE_SET_CONTENTS_CONSISTENT \<in> flags
           then set_contents_consistent k w filename buf n flags mode
           else
             case set_contents_direct k w filename buf n flags mode of
               Inl (saved_errno, w) \<Rightarrow>
                 if saved_errno = ELOOP
                 then set_contents_consistent k w filename buf n
                        (flags \<union> {G_FILE_SET_CONTENTS_CONSISTENT}) mode
                 else Some (Failed (GError Failed_to_open filename saved_errno), w)
             | Inr r \<Rightarrow> r)"

definition g_file_set_contents ::
  "kernel \<Rightarrow> world \<Rightarrow> string \<Rightarrow> bytes option \<Rightarrow> int \<Rightarrow> (outcome \<times> world) option" where
  "g_file_set_contents k w filename contents length' =
     g_file_set_contents_full k w filename contents length'
       {G_FILE_SET_CONTENTS_CONSISTENT, G_FILE_SET_CONTENTS_ONLY_EXISTING} 438"


subsection \<open>Notions used to state the properties of GArray\<close>

definition max_elems :: "GRealArray \<Rightarrow> nat" where
  "max_elems a = min (9223372036854775807 div unat (elt_size a)) 4294967295
                 - (if zero_terminated a then 1 else 0)"

definition zt_slot :: "GRealArray \<Rightarrow> nat" where
  "zt_slot a = (if zero_terminated a then 1 else 0)"

definition want_len_of :: "GRealArray \<Rightarrow> guint \<Rightarrow> nat" where
  "want_len_of a n = unat (len a) + unat n + zt_slot a"

text \<open>The block of an array as a list of bytes; no bytes when \<open>data\<close> is \<open>NULL\<close>.\<close>

definition old_block :: "GRealArray \<Rightarrow> block" where
  "old_block a = (case data a of None \<Rightarrow> [] | Some b \<Rightarrow> b)"

text \<open>
  What a growth by \<open>n\<close> elements to \<open>new_size\<close> bytes makes of the block: the old bytes
  followed by indeterminate ones, and, in gc-friendly mode, zero bytes over the elements from
  the old capacity up to the wanted length.
\<close>

definition grown_block :: "bool \<Rightarrow> GRealArray \<Rightarrow> guint \<Rightarrow> nat \<Rightarrow> block" where
  "grown_block gc a n new_size =
     (let blk = take new_size (old_block a) @ replicate (new_size - length (old_block a)) None
      in if gc
         then blk_write blk (unat (elt_size a) * unat (elt_capacity a))
                (replicate (unat (elt_size a) * (want_len_of a n - unat (elt_capacity a)))
                   (Some 0))
         else blk)"

definition array_inv :: "GRealArray \<Rightarrow> bool" where
  "array_inv a \<longleftrightarrow>
     elt_size a \<noteq> 0 \<and> unat (len a) \<le> max_elems a
     \<and> (data a \<noteq> None \<longrightarrow> unat (len a) + zt_slot a \<le> unat (elt_capacity a))
     \<and> (data a = None \<longrightarrow> elt_capacity a = 0 \<and> len a = 0)"

definition same_shape :: "GRealArray \<Rightarrow> GRealArray \<Rightarrow> bool" where
  "same_shape a b \<longleftrightarrow>
     len b = len a \<and> elt_capacity b = elt_capacity a \<and> elt_size b = elt_size a
     \<and> zero_terminated b = zero_terminated a \<and> (data b = None) = (data a = None)"

definition example_array :: GRealArray where
  "example_array = \<lparr>data = None, len = 0, elt_capacity = 0, elt_size = 4,
     zero_terminated = True, clear = False, ref_count = 1, clear_func = None\<rparr>"

definition example_ops :: "array_op list" where
  "example_ops = [Append_vals [Some 1, Some 2, Some 3, Some 4] 1,
                  Append_vals [Some 5, Some 6, Some 7, Some 8] 1, Remove_index 0]"

definition first_byte :: "block \<Rightarrow> int" where
  "first_byte b = (case b of Some x # _ \<Rightarrow> uint x | _ \<Rightarrow> 0)"

definition cmp_first_byte :: "block \<Rightarrow> block \<Rightarrow> int" where
  "cmp_first_byte a b = first_byte a - first_byte b"

definition ties_array :: GRealArray where
  "ties_array = \<lparr>data = Some ([Some 1, Some 1, Some 1] @ replicate 13 None), len = 3,
     elt_capacity = 16, elt_size = 1, zero_terminated = False, clear = False,
     ref_count = 1, clear_func = None\<rparr>"

definition cmp_consistent :: "('a \<Rightarrow> 'a \<Rightarrow> int) \<Rightarrow> bool" where
  "cmp_consistent cmp \<longleftrightarrow>
     (\<forall>x y. (cmp x y < 0) = (cmp y x > 0))
     \<and> (\<forall>x y z. cmp x y \<le> 0 \<longrightarrow> cmp y z \<le> 0 \<longrightarrow> cmp x z \<le> 0)"

definition sorted_by :: "('a \<Rightarrow> 'a \<Rightarrow> int) \<Rightarrow> 'a list \<Rightarrow> bool" where
  "sorted_by cmp xs = sorted_wrt (\<lambda>x y. cmp x y \<le> 0) xs"

definition pairs_array :: GRealArray where
  "pairs_array = \<lparr>data = Some [Some 2, Some 1, Some 1, Some 2, Some 2, Some 3, Some 1, Some 4]
       , len = 4, elt_capacity = 4, elt_size = 2, zero_terminated = False, clear = False,
     ref_count = 1, clear_func = None\<rparr>"

subsection \<open>Notions used to state the properties of g_file_set_contents_full\<close>

definition only_touches :: "string \<Rightarrow> world \<Rightarrow> world \<Rightarrow> bool" where
  "only_touches p w w' \<longleftrightarrow> (\<forall>q. q \<noteq> p \<longrightarrow> files w' q = files w q)"

definition no_fsync :: "syscall list \<Rightarrow> bool" where
  "no_fsync t \<longleftrightarrow> (\<forall>p. Sys_fsync p \<notin> set t)"

definition target_at_risk :: "kernel \<Rightarrow> world \<Rightarrow> string \<Rightarrow> bool" where
  "target_at_risk k w filename =
     (case lstat_fault k of
        Some e \<Rightarrow> e \<noteq> ENOENT
      | None \<Rightarrow>
          (case files w filename of
             None \<Rightarrow> False
           | Some (Regular c m) \<Rightarrow> c \<noteq> []
           | Some (Symlink t) \<Rightarrow> t \<noteq> []))"

definition tmp_failure :: "kernel \<Rightarrow> string \<Rightarrow> gerror \<Rightarrow> bool" where
  "tmp_failure k tmp err \<longleftrightarrow>
     (\<exists>e. err = GError Failed_to_set_permissions tmp e \<and> fchmod_fault k = Some e)
     \<or> (\<exists>e. err = GError Failed_write tmp e \<and> Write_failed e \<in> set (write_script k))
     \<or> (\<exists>e. err = GError Failed_fsync tmp e \<and> fsync_fault k tmp = Some e)
     \<or> (\<exists>e. err = GError Failed_close tmp e \<and> close_fault k = Some e)
     \<or> (\<exists>e. err = GError Failed_rename tmp e \<and> (rename_fault k = Some e \<or> e = ENOENT))"

definition fsync_wanted :: "kernel \<Rightarrow> world \<Rightarrow> string \<Rightarrow> GFileSetContentsFlag set \<Rightarrow> bool" where
  "fsync_wanted k w filename flags \<longleftrightarrow>
     (G_FILE_SET_CONTENTS_CONSISTENT \<in> flags \<or> G_FILE_SET_CONTENTS_DURABLE \<in> flags)
     \<and> (G_FILE_SET_CONTENTS_ONLY_EXISTING \<in> flags \<longrightarrow> target_at_risk k w filename)"

section \<open>GArray: arithmetic of the growth policy and the capacity invariant\<close>

lemma unat_min_word: "unat (min (a::'a::len word) b) = min (unat a) (unat b)"
  by (simp add: min_def word_le_nat_alt)

lemma unat_max_word: "unat (max (a::'a::len word) b) = max (unat a) (unat b)"
  by (simp add: max_def word_le_nat_alt)

lemma unat_elt_size_64: "unat (ucast (w::guint) :: gsize) = unat w"
  by (simp add: unsigned_ucast_eq take_bit_nat_eq_self unsigned_less[of w, simplified] less_trans[OF unsigned_less[where 'b=32 and w=w, simplified]])

lemma unat_guint_bound: "unat (w::guint) < 4294967296"
  using unsigned_less[of w, where 'a=nat] by simp

lemma half_max_div:
  assumes "elt_size a \<noteq> 0"
  shows "unat (G_MAXSIZE div 2 div ucast (elt_size a)) = 9223372036854775807 div unat (elt_size a)"
  by (simp add: unat_div G_MAXSIZE_def unat_elt_size_64)

lemma half_max_div_ge:
  assumes "elt_size a \<noteq> 0"
  shows "2147483648 \<le> (9223372036854775807::nat) div unat (elt_size a)"
proof -
  have "unat (elt_size a) < 4294967296" by (rule unat_guint_bound)
  moreover have "0 < unat (elt_size a)" using assms by (simp add: unat_gt_0)
  ultimately have "2147483648 * unat (elt_size a) \<le> 9223372036854775807" by simp
  then show ?thesis using \<open>0 < unat (elt_size a)\<close>
    by (simp add: less_eq_div_iff_mult_less_eq)
qed

lemma unat_array_max_len:
  assumes "elt_size a \<noteq> 0"
  shows "unat (array_max_len a) = max_elems a"
proof -
  let ?m = "min (G_MAXSIZE div 2 div ucast (elt_size a)) (ucast G_MAXUINT) :: gsize"
  have m: "unat ?m = min (9223372036854775807 div unat (elt_size a)) 4294967295"
    by (simp add: unat_min_word half_max_div[OF assms] G_MAXUINT_def)
  have ge: "1 \<le> unat ?m" using half_max_div_ge[OF assms] m by simp
  have "unat (?m - of_bool (zero_terminated a)) = unat ?m - (if zero_terminated a then 1 else 0)"
    using ge by (cases "zero_terminated a") (simp_all add: unat_sub word_le_nat_alt)
  moreover have "unat ?m - (if zero_terminated a then 1 else (0::nat)) < 4294967296"
    using m by simp
  ultimately show ?thesis
    unfolding array_max_len_def max_elems_def 
    using m unat_guint_bound by (simp add: unsigned_ucast_eq take_bit_nat_eq_self)
qed

lemma unat_g_array_elt_len: "unat (g_array_elt_len a i) = unat (elt_size a) * unat i"
proof -
  have "unat (elt_size a) * unat i < 4294967296 * 4294967296"
    using unat_guint_bound[of "elt_size a"] unat_guint_bound[of i]
    by (intro mult_strict_mono) simp_all
  then have "unat (elt_size a) * unat i < 2 ^ 64" by simp
  then show ?thesis
    unfolding g_array_elt_len_def
    by (simp add: unat_mult_lem[THEN iffD1] unat_elt_size_64)
qed

lemma find_upt_Some:
  assumes "find P [0..<n] = Some k"
  shows "k < n \<and> P k \<and> (\<forall>j<k. \<not> P j)"
  using assms by (auto simp: find_Some_iff)

lemma find_upt_None:
  assumes "find P [0..<n] = None" "j < n"
  shows "\<not> P j"
  using assms by (auto simp: find_None_iff)

lemma unat_pow2_64: "k < 64 \<Longrightarrow> unat (2 ^ k :: gsize) = 2 ^ k"
proof -
  assume k: "k < 64"
  have "(2 ^ k :: gsize) = of_nat (2 ^ k)" by simp
  then have "unat (2 ^ k :: gsize) = 2 ^ k mod 2 ^ 64"
    by (simp only: unat_of_nat) simp
  moreover have "(2::nat) ^ k < 2 ^ 64" using k by (intro power_strict_increasing) simp_all
  ultimately show ?thesis by simp
qed

lemma g_nearest_pow_spec:
  assumes "unat num \<le> 2 ^ 63"
  shows "\<exists>k<64. g_nearest_pow num = 2 ^ k \<and> unat (g_nearest_pow num) = 2 ^ k
            \<and> unat num \<le> 2 ^ k \<and> (\<forall>j<k. 2 ^ j < unat num)"
proof (cases "find (\<lambda>k. unat num \<le> 2 ^ k) [0..<64]")
  case None
  from find_upt_None[OF None, of 63] assms show ?thesis by simp
next
  case (Some k)
  from find_upt_Some[OF Some] have k: "k < 64" "unat num \<le> 2 ^ k" "\<forall>j<k. \<not> unat num \<le> 2 ^ j"
    by auto
  have "g_nearest_pow num = 2 ^ k" by (simp add: g_nearest_pow_def Some)
  with k show ?thesis by (auto simp: unat_pow2_64 not_le)
qed

lemma max_elems_bounds:
  assumes "elt_size a \<noteq> 0"
  shows "max_elems a + zt_slot a \<le> 4294967295"
    and "max_elems a + zt_slot a \<le> 9223372036854775807 div unat (elt_size a)"
  using half_max_div_ge[OF assms] by (auto simp: max_elems_def zt_slot_def)

lemma unat_of_bool_32: "unat (of_bool b :: guint) = (if b then 1 else 0)"
  by simp

lemma not_fatal_iff:
  assumes es: "elt_size a \<noteq> 0" and inv: "unat (len a) \<le> max_elems a"
  shows "array_max_len a - len a < n \<longleftrightarrow> max_elems a < unat (len a) + unat n"
proof -
  have "len a \<le> array_max_len a"
    using inv by (simp add: word_le_nat_alt unat_array_max_len[OF es])
  then have "unat (array_max_len a - len a) = max_elems a - unat (len a)"
    by (simp add: unat_sub unat_array_max_len[OF es])
  then show ?thesis using inv by (auto simp: word_less_nat_alt)
qed

lemma unat_want_len:
  assumes es: "elt_size a \<noteq> 0" and fits: "unat (len a) + unat n \<le> max_elems a"
  shows "unat (len a + n + of_bool (zero_terminated a)) = want_len_of a n"
proof -
  have b: "unat (len a) + unat n + zt_slot a < 2 ^ 32"
    using max_elems_bounds(1)[OF es] fits by simp
  then have "unat (len a + n) = unat (len a) + unat n"
    by (simp add: unat_add_lem[THEN iffD1])
  moreover have "unat (of_bool (zero_terminated a) :: guint) = zt_slot a"
    by (simp add: zt_slot_def)
  ultimately show ?thesis using b
    by (simp add: unat_add_lem[THEN iffD1] want_len_of_def)
qed

lemma want_bytes_bound:
  assumes es: "elt_size a \<noteq> 0" and fits: "unat (len a) + unat n \<le> max_elems a"
  shows "unat (elt_size a) * want_len_of a n \<le> 9223372036854775807"
proof -
  have "want_len_of a n \<le> 9223372036854775807 div unat (elt_size a)"
    using max_elems_bounds(2)[OF es] fits by (simp add: want_len_of_def)
  then have "unat (elt_size a) * want_len_of a n
               \<le> unat (elt_size a) * (9223372036854775807 div unat (elt_size a))"
    by (rule mult_le_mono2)
  also have "\<dots> \<le> 9223372036854775807" by simp
  finally show ?thesis .
qed

lemma length_blk_write [simp]: "length (blk_write blk pos src) = length blk"
  by (auto simp: blk_write_def)

lemma g_realloc_Some: "\<exists>blk. g_realloc mem n = Some blk \<and> length blk = unat n"
  by (auto simp: g_realloc_def Let_def split: option.splits)

lemma memset_zero_Some:
  "mem = Some blk \<Longrightarrow> \<exists>blk'. memset_zero mem pos n = Some blk' \<and> length blk' = length blk"
  by (simp add: memset_zero_def)

lemma unat_new_capacity:
  assumes es: "elt_size a \<noteq> 0"
  shows "unat (ucast (min (wa div ucast (elt_size a)) (ucast G_MAXUINT :: gsize)) :: guint)
           = min (unat wa div unat (elt_size a)) 4294967295"
proof -
  have "unat (min (wa div ucast (elt_size a)) (ucast G_MAXUINT :: gsize))
          = min (unat wa div unat (elt_size a)) 4294967295"
    by (simp add: unat_min_word unat_div unat_elt_size_64 G_MAXUINT_def)
  then show ?thesis
    by (simp add: unsigned_ucast_eq take_bit_nat_eq_self)
qed

lemma g_array_maybe_expand_noop:
  assumes es: "elt_size a \<noteq> 0" and fits: "unat (len a) + unat n \<le> max_elems a"
    and enough: "want_len_of a n \<le> unat (elt_capacity a)"
  shows "g_array_maybe_expand gc a n = Inr a"
proof -
  have inv: "unat (len a) \<le> max_elems a" using fits by simp
  have nf: "\<not> array_max_len a - len a < n"
    using not_fatal_iff[OF es inv, of n] fits by simp
  have "\<not> len a + n + of_bool (zero_terminated a) > elt_capacity a"
    using enough unat_want_len[OF es fits] by (simp add: word_less_nat_alt)
  with nf es show ?thesis by (simp add: g_array_maybe_expand_def Let_def)
qed

lemma g_array_maybe_expand_grow:
  assumes es: "elt_size a \<noteq> 0" and fits: "unat (len a) + unat n \<le> max_elems a"
    and short: "unat (elt_capacity a) < want_len_of a n"
  shows "\<exists>k blk c. k < 64
           \<and> g_array_maybe_expand gc a n = Inr (a\<lparr>data := Some blk, elt_capacity := c\<rparr>)
           \<and> length blk = max (2 ^ k) 16
           \<and> unat (elt_size a) * want_len_of a n \<le> 2 ^ k
           \<and> (\<forall>j<k. 2 ^ j < unat (elt_size a) * want_len_of a n)
           \<and> unat c = min (max (2 ^ k) 16 div unat (elt_size a)) 4294967295"
proof -
  let ?W = "len a + n + of_bool (zero_terminated a)"
  let ?EL = "g_array_elt_len a ?W"
  let ?WA = "max (g_nearest_pow ?EL) MIN_ARRAY_SIZE"
  have inv: "unat (len a) \<le> max_elems a" using fits by simp
  have nf: "\<not> array_max_len a - len a < n"
    using not_fatal_iff[OF es inv, of n] fits by simp
  have W: "unat ?W = want_len_of a n" by (rule unat_want_len[OF es fits])
  have gt: "?W > elt_capacity a" using short W by (simp add: word_less_nat_alt)
  have EL: "unat ?EL = unat (elt_size a) * want_len_of a n"
    by (simp add: unat_g_array_elt_len W)
  then have "unat ?EL \<le> 2 ^ 63" using want_bytes_bound[OF es fits] by simp
  from g_nearest_pow_spec[OF this] obtain k where k: "k < 64"
    "unat (g_nearest_pow ?EL) = 2 ^ k" "unat ?EL \<le> 2 ^ k" "\<forall>j<k. 2 ^ j < unat ?EL"
    by blast
  have ge: "g_nearest_pow ?EL \<ge> ?EL" using k by (simp add: word_le_nat_alt)
  have WA: "unat ?WA = max (2 ^ k) 16"
    by (simp add: unat_max_word k MIN_ARRAY_SIZE_def)
  obtain blk0 where blk0: "g_realloc (data a) ?WA = Some blk0" "length blk0 = unat ?WA"
    using g_realloc_Some by blast
  define mem where "mem = (if gc
       then memset_zero (g_realloc (data a) ?WA) (g_array_elt_pos a (elt_capacity a))
              (unat (g_array_elt_len a (?W - elt_capacity a)))
       else g_realloc (data a) ?WA)"
  have "\<exists>blk. mem = Some blk \<and> length blk = unat ?WA"
  proof (cases gc)
    case True
    then show ?thesis
      unfolding mem_def blk0(1) using blk0(2) by (simp add: memset_zero_def)
  next
    case False
    then show ?thesis unfolding mem_def using blk0 by simp
  qed
  then obtain blk where blk: "mem = Some blk" "length blk = unat ?WA" by blast
  define c :: guint where "c = ucast (min (?WA div ucast (elt_size a)) (ucast G_MAXUINT))"
  have c: "unat c = min (max (2 ^ k) 16 div unat (elt_size a)) 4294967295"
    unfolding c_def unat_new_capacity[OF es] WA ..
  have "g_array_maybe_expand gc a n = Inr (a\<lparr>data := mem, elt_capacity := c\<rparr>)"
    using es nf gt ge by (simp add: g_array_maybe_expand_def Let_def mem_def c_def)
  with k blk c WA EL show ?thesis by auto
qed

lemma same_shape_refl [simp]: "same_shape a a"
  by (simp add: same_shape_def)

lemma same_shape_trans: "same_shape a b \<Longrightarrow> same_shape b c \<Longrightarrow> same_shape a c"
  by (simp add: same_shape_def)

lemma same_shape_inv: "same_shape a b \<Longrightarrow> array_inv a \<Longrightarrow> array_inv b"
  by (simp add: same_shape_def array_inv_def max_elems_def zt_slot_def)

lemma same_shape_data_update:
  "(m = None) = (data a = None) \<Longrightarrow> same_shape a (a\<lparr>data := m\<rparr>)"
  by (simp add: same_shape_def)

lemma same_shape_elt_zero [simp]: "same_shape a (g_array_elt_zero a p n)"
  by (simp add: g_array_elt_zero_def same_shape_def memset_zero_def)

lemma same_shape_zero_terminate [simp]: "same_shape a (g_array_zero_terminate a)"
  by (simp add: g_array_zero_terminate_def)

lemma same_shape_after_remove [simp]: "same_shape a (after_remove gc a n)"
  by (simp add: after_remove_def)

lemma same_shape_call_clear_func [simp]: "same_shape a (call_clear_func a i)"
  by (simp add: call_clear_func_def same_shape_def split: option.splits)

lemma same_shape_clear_loop: "same_shape a (fst (clear_loop a idx n i evs))"
proof (induction a idx n i evs rule: clear_loop.induct)
  case (1 array idx n i evs)
  show ?case
  proof (cases "i < n")
    case True
    from "1.IH"[OF True] have "same_shape (call_clear_func array (idx + i))
        (fst (clear_loop array idx n i evs))"
      by (subst clear_loop.simps) (simp add: True)
    then show ?thesis using same_shape_trans same_shape_call_clear_func by blast
  next
    case False
    then show ?thesis by (subst clear_loop.simps) simp
  qed
qed

lemma mem_move_None [simp]: "(mem_move m d s n = None) = (m = None)"
  by (simp add: mem_move_def)

lemma mem_copy_in_None [simp]: "(mem_copy_in m d v n = None) = (m = None)"
  by (simp add: mem_copy_in_def)

lemma maybe_expand_inv:
  assumes inv: "array_inv a" and r: "g_array_maybe_expand gc a n = Inr a'"
  shows "array_inv a' \<and> len a' = len a \<and> elt_size a' = elt_size a
         \<and> zero_terminated a' = zero_terminated a
         \<and> unat (len a) + unat n \<le> max_elems a
         \<and> (data a' \<noteq> None \<longrightarrow> unat (len a) + unat n + zt_slot a \<le> unat (elt_capacity a'))
         \<and> (data a' = None \<longrightarrow> n = 0)"
proof -
  from inv have es: "elt_size a \<noteq> 0" and L: "unat (len a) \<le> max_elems a"
    by (simp_all add: array_inv_def)
  have nf: "\<not> array_max_len a - len a < n"
    using r es by (auto simp: g_array_maybe_expand_def Let_def split: if_splits)
  then have fits: "unat (len a) + unat n \<le> max_elems a"
    using not_fatal_iff[OF es L, of n] by simp
  show ?thesis
  proof (cases "want_len_of a n \<le> unat (elt_capacity a)")
    case True
    from g_array_maybe_expand_noop[OF es fits True, of gc] r have a': "a' = a" by simp
    have "data a = None \<longrightarrow> n = 0"
      using True inv by (auto simp: array_inv_def want_len_of_def unat_eq_0)
    with True inv fits show ?thesis by (auto simp: a' want_len_of_def)
  next
    case False
    then have short: "unat (elt_capacity a) < want_len_of a n" by simp
    from g_array_maybe_expand_grow[OF es fits short, of gc] r
    obtain k blk c where g: "a' = a\<lparr>data := Some blk, elt_capacity := c\<rparr>"
      "unat (elt_size a) * want_len_of a n \<le> 2 ^ k"
      "unat c = min (max (2 ^ k) 16 div unat (elt_size a)) 4294967295"
      by auto
    have pos: "0 < unat (elt_size a)" using es by (simp add: unat_gt_0)
    have "want_len_of a n * unat (elt_size a) \<le> max (2 ^ k) 16"
      using g(2) by (simp add: mult.commute)
    then have "want_len_of a n \<le> max (2 ^ k) 16 div unat (elt_size a)"
      using pos by (simp add: less_eq_div_iff_mult_less_eq)
    moreover have "want_len_of a n \<le> 4294967295"
      using max_elems_bounds(1)[OF es] fits by (simp add: want_len_of_def)
    ultimately have cap: "want_len_of a n \<le> unat c" using g(3) by simp
    show ?thesis
      using inv fits cap
      by (simp add: g array_inv_def max_elems_def zt_slot_def want_len_of_def)
  qed
qed

lemma same_shapeD:
  assumes "same_shape a b"
  shows "len b = len a" "elt_capacity b = elt_capacity a" "elt_size b = elt_size a"
    "zero_terminated b = zero_terminated a" "(data b = None) = (data a = None)"
    "(\<exists>y. data b = Some y) = (\<exists>y. data a = Some y)"
  using assms by (simp_all add: same_shape_def flip: not_None_eq)

lemmas elt_zero_fields [simp] = same_shapeD [OF same_shape_elt_zero]
lemmas zero_terminate_fields [simp] = same_shapeD [OF same_shape_zero_terminate]
lemmas after_remove_fields [simp] = same_shapeD [OF same_shape_after_remove]
lemmas call_clear_func_fields [simp] = same_shapeD [OF same_shape_call_clear_func]
lemmas clear_loop_fields [simp] = same_shapeD [OF same_shape_clear_loop]

lemma array_inv_shrink:
  assumes "array_inv a" "elt_size b = elt_size a" "zero_terminated b = zero_terminated a"
    "elt_capacity b = elt_capacity a" "(data b = None) = (data a = None)"
    "unat (len b) \<le> unat (len a)"
  shows "array_inv b"
  using assms by (auto simp: array_inv_def max_elems_def zt_slot_def unat_eq_0)

lemma array_inv_added:
  assumes inv: "array_inv a1" and fits: "unat (len a1) + unat n \<le> max_elems a1"
    and cap: "unat (len a1) + unat n + zt_slot a1 \<le> unat (elt_capacity a1)"
    and b: "elt_size b = elt_size a1" "zero_terminated b = zero_terminated a1"
      "elt_capacity b = elt_capacity a1" "data b \<noteq> None" "len b = len a1 + n"
  shows "array_inv b"
proof -
  have es: "elt_size a1 \<noteq> 0" using inv by (simp add: array_inv_def)
  have "unat (len a1) + unat n < 2 ^ LENGTH(32)"
    using fits max_elems_bounds(1)[OF es] by simp
  then have "unat (len a1 + n) = unat (len a1) + unat n"
    by (simp only: unat_add_lem[THEN iffD1])
  then show ?thesis using inv fits cap b
    by (auto simp: array_inv_def max_elems_def zt_slot_def)
qed

lemma append_vals_inv:
  assumes inv: "array_inv a" and r: "g_array_append_vals gc a vals n = Inr a'"
  shows "array_inv a'"
proof (cases "n = 0")
  case True
  with r inv show ?thesis by (simp add: g_array_append_vals_def)
next
  case False
  from r False obtain a1 where e: "g_array_maybe_expand gc a n = Inr a1"
    and a': "a' = g_array_zero_terminate
               (a1\<lparr>data := mem_copy_in (data a1) (g_array_elt_pos a1 (len a1)) vals
                               (unat (g_array_elt_len a1 n)),
                    len := len a1 + n\<rparr>)"
    by (auto simp: g_array_append_vals_def Let_def split: sum.splits)
  from maybe_expand_inv[OF inv e] False
  have f: "array_inv a1" "len a1 = len a" "elt_size a1 = elt_size a"
    "zero_terminated a1 = zero_terminated a" "unat (len a) + unat n \<le> max_elems a"
    "data a1 \<noteq> None" "unat (len a) + unat n + zt_slot a \<le> unat (elt_capacity a1)"
    by auto
  show ?thesis
    using f by (intro array_inv_added[of a1 n a']) (simp_all add: a' max_elems_def zt_slot_def)
qed

lemma prepend_vals_inv:
  assumes inv: "array_inv a" and r: "g_array_prepend_vals gc a vals n = Inr a'"
  shows "array_inv a'"
proof (cases "n = 0")
  case True
  with r inv show ?thesis by (simp add: g_array_prepend_vals_def)
next
  case False
  from r False obtain a1 where e: "g_array_maybe_expand gc a n = Inr a1"
    and a': "elt_size a' = elt_size a1" "zero_terminated a' = zero_terminated a1"
      "elt_capacity a' = elt_capacity a1" "(data a' = None) = (data a1 = None)"
      "len a' = len a1 + n"
    by (auto simp: g_array_prepend_vals_def Let_def split: sum.splits)
  from maybe_expand_inv[OF inv e] False
  have f: "array_inv a1" "len a1 = len a" "elt_size a1 = elt_size a"
    "zero_terminated a1 = zero_terminated a" "unat (len a) + unat n \<le> max_elems a"
    "data a1 \<noteq> None" "unat (len a) + unat n + zt_slot a \<le> unat (elt_capacity a1)"
    by auto
  show ?thesis
    using f a' by (intro array_inv_added[of a1 n a']) (simp_all add: max_elems_def zt_slot_def)
qed

lemma unat_minus_one_le: "unat (w - 1 :: guint) \<le> unat w" if "w \<noteq> 0"
  using that by (simp add: unat_minus_one)

lemma remove_index_inv:
  assumes inv: "array_inv a" and r: "g_array_remove_index gc a i = Inr (a', evs)"
  shows "array_inv a'"
proof -
  from r have lt: "i < len a"
    by (auto simp: g_array_remove_index_def split: if_splits)
  then have nz: "len a \<noteq> 0" by auto
  from r lt have a': "elt_size a' = elt_size a" "zero_terminated a' = zero_terminated a"
      "elt_capacity a' = elt_capacity a" "(data a' = None) = (data a = None)"
      "len a' = len a - 1"
    by (auto simp: g_array_remove_index_def Let_def split: if_splits)
  show ?thesis
    using a' unat_minus_one_le[OF nz] by (intro array_inv_shrink[OF inv]) simp_all
qed

lemma remove_index_fast_inv:
  assumes inv: "array_inv a" and r: "g_array_remove_index_fast gc a i = Inr (a', evs)"
  shows "array_inv a'"
proof -
  from r have lt: "i < len a"
    by (auto simp: g_array_remove_index_fast_def split: if_splits)
  then have nz: "len a \<noteq> 0" by auto
  from r lt have a': "elt_size a' = elt_size a" "zero_terminated a' = zero_terminated a"
      "elt_capacity a' = elt_capacity a" "(data a' = None) = (data a = None)"
      "len a' = len a - 1"
    by (auto simp: g_array_remove_index_fast_def Let_def split: if_splits)
  show ?thesis
    using a' unat_minus_one_le[OF nz] by (intro array_inv_shrink[OF inv]) simp_all
qed

lemma remove_range_shape:
  assumes r: "g_array_remove_range gc a i n = Inr (a', evs)"
  shows "elt_size a' = elt_size a \<and> zero_terminated a' = zero_terminated a
      \<and> elt_capacity a' = elt_capacity a \<and> (data a' = None) = (data a = None)
      \<and> len a' = len a - n \<and> n \<le> len a"
proof -
  from r have c: "i \<le> len a" "i \<le> G_MAXUINT - n" "i + n \<le> len a"
    by (auto simp: g_array_remove_range_def split: if_splits)
  have "unat (G_MAXUINT - n) = 4294967295 - unat n"
    using unat_guint_bound[of n] by (simp add: unat_sub word_le_nat_alt G_MAXUINT_def)
  then have "unat i + unat n < 2 ^ LENGTH(32)"
    using c(2) unat_guint_bound[of n] by (simp add: word_le_nat_alt)
  then have "unat (i + n) = unat i + unat n" by (simp only: unat_add_lem[THEN iffD1])
  then have n: "n \<le> len a" using c(3) by (simp add: word_le_nat_alt)
  show ?thesis
  proof (cases "n = 0")
    case True
    with r c show ?thesis by (simp add: g_array_remove_range_def)
  next
    case False
    with r c n show ?thesis
      by (auto simp: g_array_remove_range_def Let_def case_prod_beta split: if_splits)
  qed
qed

lemma remove_range_inv:
  assumes inv: "array_inv a" and r: "g_array_remove_range gc a i n = Inr (a', evs)"
  shows "array_inv a'"
proof -
  note s = remove_range_shape[OF r]
  then have "unat (len a') \<le> unat (len a)" by (simp add: unat_sub)
  with s show ?thesis by (intro array_inv_shrink[OF inv]) simp_all
qed

lemma set_size_inv:
  assumes inv: "array_inv a" and r: "g_array_set_size gc a n = Inr (a', evs)"
  shows "array_inv a'"
proof -
  consider (grow) "n > len a" | (shrink) "n < len a" | (same) "n = len a"
    by (metis not_less_iff_gr_or_eq)
  then show ?thesis
  proof cases
    case grow
    then have ne: "n - len a \<noteq> 0" by auto
    from r grow obtain a1 where e: "g_array_maybe_expand gc a (n - len a) = Inr a1"
      by (auto simp: g_array_set_size_def Let_def split: sum.splits)
    from maybe_expand_inv[OF inv e] ne
    have f: "array_inv a1" "len a1 = len a" "elt_size a1 = elt_size a"
      "zero_terminated a1 = zero_terminated a"
      "unat (len a) + unat (n - len a) \<le> max_elems a"
      "data a1 \<noteq> None"
      "unat (len a) + unat (n - len a) + zt_slot a \<le> unat (elt_capacity a1)"
      by auto
    define X where
      "X = (if clear a1 then g_array_elt_zero a1 (len a1) (n - len a1) else a1)\<lparr>len := n\<rparr>"
    have dX: "data X \<noteq> None" using f(6) by (simp add: X_def del: not_None_eq)
    have "Inr (if data X \<noteq> None then g_array_zero_terminate X else X, []) = Inr (a', evs)"
      using r grow e unfolding g_array_set_size_def Let_def X_def
      by (simp del: not_None_eq)
    then have a'eq: "a' = g_array_zero_terminate X" using dX by (simp del: not_None_eq)
    have a': "elt_size a' = elt_size a1" "zero_terminated a' = zero_terminated a1"
        "elt_capacity a' = elt_capacity a1" "(data a' = None) = (data a1 = None)"
        "len a' = n"
      by (simp_all add: a'eq X_def)
    show ?thesis
      using f a'
      by (intro array_inv_added[of a1 "n - len a" a']) (simp_all add: max_elems_def zt_slot_def)
  next
    case shrink
    then have le: "unat n \<le> unat (len a)" by (simp add: word_less_nat_alt)
    have "elt_size a' = elt_size a \<and> zero_terminated a' = zero_terminated a
        \<and> elt_capacity a' = elt_capacity a \<and> (data a' = None) = (data a = None) \<and> len a' = n"
    proof (cases "g_array_remove_range gc a n (len a - n)")
      case (Inl e)
      with r shrink show ?thesis
        by (cases e) (auto simp: g_array_set_size_def Let_def split: if_splits)
    next
      case (Inr p)
      obtain b evs' where p: "p = (b, evs')" by (cases p)
      from remove_range_shape[OF Inr[unfolded p]] r shrink Inr p show ?thesis
        by (auto simp: g_array_set_size_def Let_def split: if_splits)
    qed
    with le show ?thesis by (intro array_inv_shrink[OF inv]) simp_all
  next
    case same
    with r have "elt_size a' = elt_size a \<and> zero_terminated a' = zero_terminated a
        \<and> elt_capacity a' = elt_capacity a \<and> (data a' = None) = (data a = None) \<and> len a' = len a"
      by (auto simp: g_array_set_size_def Let_def split: if_splits)
    then show ?thesis by (intro array_inv_shrink[OF inv]) simp_all
  qed
qed

lemma insert_vals_inv:
  assumes inv: "array_inv a" and r: "g_array_insert_vals gc a i vals n = Inr a'"
  shows "array_inv a'"
proof (cases "n = 0")
  case True
  with r inv show ?thesis by (simp add: g_array_insert_vals_def)
next
  case False
  show ?thesis
  proof (cases "i \<ge> len a")
    case True
    from r False True obtain a1 a2 evs where
      e: "g_array_maybe_expand gc a (i - len a + n) = Inr a1"
      and s: "g_array_set_size gc a1 i = Inr (a2, evs)"
      and ap: "g_array_append_vals gc a2 vals n = Inr a'"
      by (auto simp: g_array_insert_vals_def split: sum.splits)
    from maybe_expand_inv[OF inv e] have "array_inv a1" by simp
    from set_size_inv[OF this s] have "array_inv a2" .
    from append_vals_inv[OF this ap] show ?thesis .
  next
    case notoff: False
    from r False notoff obtain a1 where e: "g_array_maybe_expand gc a n = Inr a1"
      and a': "elt_size a' = elt_size a1" "zero_terminated a' = zero_terminated a1"
        "elt_capacity a' = elt_capacity a1" "(data a' = None) = (data a1 = None)"
        "len a' = len a1 + n"
      by (auto simp: g_array_insert_vals_def Let_def split: sum.splits)
    from maybe_expand_inv[OF inv e] False
    have f: "array_inv a1" "len a1 = len a" "elt_size a1 = elt_size a"
      "zero_terminated a1 = zero_terminated a" "unat (len a) + unat n \<le> max_elems a"
      "data a1 \<noteq> None" "unat (len a) + unat n + zt_slot a \<le> unat (elt_capacity a1)"
      by auto
    show ?thesis
      using f a' by (intro array_inv_added[of a1 n a']) (simp_all add: max_elems_def zt_slot_def)
  qed
qed

lemma array_inv_reset:
  assumes "array_inv a" "elt_size b = elt_size a" "data b = None" "len b = 0"
    "elt_capacity b = 0"
  shows "array_inv b"
  using assms by (simp add: array_inv_def)

lemma array_inv_same:
  assumes "array_inv a" "elt_size b = elt_size a" "zero_terminated b = zero_terminated a"
    "elt_capacity b = elt_capacity a" "(data b = None) = (data a = None)" "len b = len a"
  shows "array_inv b"
  using assms by (intro array_inv_shrink[OF assms(1)]) simp_all

lemma steal_inv: "array_inv a \<Longrightarrow> array_inv (snd (snd (g_array_steal a)))"
  by (erule array_inv_reset) (simp_all add: g_array_steal_def Let_def)

lemma array_free_inv:
  assumes inv: "array_inv a" and r: "array_free a flags = (seg, Some a', evs)"
  shows "array_inv a'"
proof -
  from r have "elt_size a' = elt_size a \<and> data a' = None \<and> len a' = 0 \<and> elt_capacity a' = 0"
    by (auto simp: array_free_def Let_def case_prod_beta split: if_splits)
  then show ?thesis by (intro array_inv_reset[OF inv]) simp_all
qed

lemma dec_inv: "array_inv a \<Longrightarrow> array_inv (fst (g_atomic_ref_count_dec a))"
  by (erule array_inv_same) (simp_all add: g_atomic_ref_count_dec_def)

lemma g_array_free_inv:
  assumes inv: "array_inv a" and r: "fst (snd (g_array_free a fs)) = Some a'"
  shows "array_inv a'"
proof -
  obtain seg evs where "array_free (fst (g_atomic_ref_count_dec a))
      (if \<not> snd (g_atomic_ref_count_dec a)
       then (if fs then {FREE_SEGMENT} else {}) \<union> {PRESERVE_WRAPPER}
       else (if fs then {FREE_SEGMENT} else {})) = (seg, Some a', evs)"
    using r by (cases "g_array_free a fs") (auto simp: g_array_free_def Let_def case_prod_beta)
  from array_free_inv[OF dec_inv[OF inv] this] show ?thesis .
qed

lemma g_array_unref_inv:
  assumes inv: "array_inv a" and r: "fst (g_array_unref a) = Some a'"
  shows "array_inv a'"
proof (cases "snd (g_atomic_ref_count_dec a)")
  case True
  then obtain seg evs where
    "array_free (fst (g_atomic_ref_count_dec a)) {FREE_SEGMENT} = (seg, Some a', evs)"
    using r
    by (cases "array_free (fst (g_atomic_ref_count_dec a)) {FREE_SEGMENT}")
       (auto simp: g_array_unref_def Let_def case_prod_beta)
  from array_free_inv[OF dec_inv[OF inv] this] show ?thesis .
next
  case False
  with r have "a' = fst (g_atomic_ref_count_dec a)"
    by (simp add: g_array_unref_def Let_def case_prod_beta)
  then show ?thesis using dec_inv[OF inv] by simp
qed

lemma keep_going_inv:
  assumes "array_inv a" "keep_going a r = Some a'" "\<And>b. r = Inr b \<Longrightarrow> array_inv b"
  shows "array_inv a'"
proof (cases r)
  case (Inl e)
  with assms(1,2) show ?thesis by (cases e) (simp_all add: keep_going_def)
next
  case (Inr b)
  with assms(2,3) show ?thesis by (simp add: keep_going_def)
qed

lemma array_step_inv:
  assumes inv: "array_inv a" and s: "array_step gc a x = Some a'"
  shows "array_inv a'"
proof (cases x)
  case (Append_vals vals n)
  with s show ?thesis by (auto intro: keep_going_inv[OF inv] append_vals_inv[OF inv])
next
  case (Prepend_vals vals n)
  with s show ?thesis by (auto intro: keep_going_inv[OF inv] prepend_vals_inv[OF inv])
next
  case (Insert_vals i vals n)
  with s show ?thesis by (auto intro: keep_going_inv[OF inv] insert_vals_inv[OF inv])
next
  case (Remove_index i)
  with s have k: "keep_going a (map_sum id fst (g_array_remove_index gc a i)) = Some a'" by simp
  show ?thesis
  proof (rule keep_going_inv[OF inv k])
    fix b assume "map_sum id fst (g_array_remove_index gc a i) = Inr b"
    then obtain evs where "g_array_remove_index gc a i = Inr (b, evs)"
      by (cases "g_array_remove_index gc a i") auto
    from remove_index_inv[OF inv this] show "array_inv b" .
  qed
next
  case (Remove_index_fast i)
  with s have k: "keep_going a (map_sum id fst (g_array_remove_index_fast gc a i)) = Some a'"
    by simp
  show ?thesis
  proof (rule keep_going_inv[OF inv k])
    fix b assume "map_sum id fst (g_array_remove_index_fast gc a i) = Inr b"
    then obtain evs where "g_array_remove_index_fast gc a i = Inr (b, evs)"
      by (cases "g_array_remove_index_fast gc a i") auto
    from remove_index_fast_inv[OF inv this] show "array_inv b" .
  qed
next
  case (Remove_range i n)
  with s have k: "keep_going a (map_sum id fst (g_array_remove_range gc a i n)) = Some a'"
    by simp
  show ?thesis
  proof (rule keep_going_inv[OF inv k])
    fix b assume "map_sum id fst (g_array_remove_range gc a i n) = Inr b"
    then obtain evs where "g_array_remove_range gc a i n = Inr (b, evs)"
      by (cases "g_array_remove_range gc a i n") auto
    from remove_range_inv[OF inv this] show "array_inv b" .
  qed
next
  case (Set_size n)
  with s have k: "keep_going a (map_sum id fst (g_array_set_size gc a n)) = Some a'" by simp
  show ?thesis
  proof (rule keep_going_inv[OF inv k])
    fix b assume "map_sum id fst (g_array_set_size gc a n) = Inr b"
    then obtain evs where "g_array_set_size gc a n = Inr (b, evs)"
      by (cases "g_array_set_size gc a n") auto
    from set_size_inv[OF inv this] show "array_inv b" .
  qed
next
  case Steal
  with s steal_inv[OF inv] show ?thesis by auto
next
  case (Free fs)
  with s g_array_free_inv[OF inv] show ?thesis by auto
next
  case Ref
  with s have "a' = g_array_ref a" by simp
  then show ?thesis by (intro array_inv_same[OF inv]) (simp_all add: g_array_ref_def)
next
  case Unref
  with s g_array_unref_inv[OF inv] show ?thesis by auto
next
  case (Set_clear_func f)
  with s have "a' = g_array_set_clear_func a f" by simp
  then show ?thesis by (intro array_inv_same[OF inv]) (simp_all add: g_array_set_clear_func_def)
qed

lemma array_run_inv:
  assumes "array_inv a" "array_run gc (Some a) ops = Some a'"
  shows "array_inv a'"
  using assms
proof (induction ops arbitrary: a)
  case Nil
  then show ?case by simp
next
  case (Cons x ops)
  show ?case
  proof (cases "array_step gc a x")
    case None
    with Cons.prems show ?thesis by simp
  next
    case (Some b)
    from array_step_inv[OF Cons.prems(1) Some] have "array_inv b" .
    moreover from Cons.prems(2) Some have "array_run gc (Some b) ops = Some a'" by simp
    ultimately show ?thesis by (rule Cons.IH)
  qed
qed

lemma sized_new_inv:
  assumes r: "g_array_sized_new gc zt clr es rs = Inr a"
  shows "array_inv a"
proof -
  define a0 where "a0 = \<lparr>data = None, len = 0, elt_capacity = 0, elt_size = es,
       zero_terminated = zt, clear = clr, ref_count = 1, clear_func = None\<rparr>"
  from r have es: "es \<noteq> 0" by (auto simp: g_array_sized_new_def split: if_splits)
  then have inv0: "array_inv a0" by (simp add: array_inv_def a0_def)
  show ?thesis
  proof (cases "zt \<or> rs \<noteq> 0")
    case True
    with r es obtain a1 where e: "g_array_maybe_expand gc a0 rs = Inr a1"
      and a: "a = g_array_zero_terminate a1"
      by (auto simp: g_array_sized_new_def Let_def a0_def word_gt_0 split: sum.splits if_splits)
    from maybe_expand_inv[OF inv0 e] have "array_inv a1" by simp
    then show ?thesis unfolding a by (rule same_shape_inv[OF same_shape_zero_terminate])
  next
    case False
    with r es have "a = a0" by (auto simp: g_array_sized_new_def Let_def a0_def word_gt_0)
    with inv0 show ?thesis by simp
  qed
qed

subsection \<open>The grown block in full\<close>

lemma g_array_maybe_expand_grow_exact:
  assumes es: "elt_size a \<noteq> 0" and fits: "unat (len a) + unat n \<le> max_elems a"
    and short: "unat (elt_capacity a) < want_len_of a n"
  shows "\<exists>k c. k < 64
           \<and> unat (elt_size a) * want_len_of a n \<le> 2 ^ k
           \<and> (\<forall>j<k. 2 ^ j < unat (elt_size a) * want_len_of a n)
           \<and> unat c = min (max (2 ^ k) 16 div unat (elt_size a)) 4294967295
           \<and> g_array_maybe_expand gc a n
               = Inr (a\<lparr>data := Some (grown_block gc a n (max (2 ^ k) 16)),
                        elt_capacity := c\<rparr>)"
proof -
  let ?W = "len a + n + of_bool (zero_terminated a)"
  let ?EL = "g_array_elt_len a ?W"
  let ?WA = "max (g_nearest_pow ?EL) MIN_ARRAY_SIZE"
  have inv: "unat (len a) \<le> max_elems a" using fits by simp
  have nf: "\<not> array_max_len a - len a < n"
    using not_fatal_iff[OF es inv, of n] fits by simp
  have W: "unat ?W = want_len_of a n" by (rule unat_want_len[OF es fits])
  have gt: "?W > elt_capacity a" using short W by (simp add: word_less_nat_alt)
  have EL: "unat ?EL = unat (elt_size a) * want_len_of a n"
    by (simp add: unat_g_array_elt_len W)
  then have "unat ?EL \<le> 2 ^ 63" using want_bytes_bound[OF es fits] by simp
  from g_nearest_pow_spec[OF this] obtain k where k: "k < 64"
    "unat (g_nearest_pow ?EL) = 2 ^ k" "unat ?EL \<le> 2 ^ k" "\<forall>j<k. 2 ^ j < unat ?EL"
    by blast
  have ge: "g_nearest_pow ?EL \<ge> ?EL" using k by (simp add: word_le_nat_alt)
  have WA: "unat ?WA = max (2 ^ k) 16"
    by (simp add: unat_max_word k MIN_ARRAY_SIZE_def)
  have diff: "unat (?W - elt_capacity a) = want_len_of a n - unat (elt_capacity a)"
    using gt W by (simp add: unat_sub word_less_nat_alt word_le_nat_alt)
  define mem where "mem = (if gc
       then memset_zero (g_realloc (data a) ?WA) (g_array_elt_pos a (elt_capacity a))
              (unat (g_array_elt_len a (?W - elt_capacity a)))
       else g_realloc (data a) ?WA)"
  have mem: "mem = Some (grown_block gc a n (max (2 ^ k) 16))"
    unfolding mem_def grown_block_def
    by (simp add: g_realloc_def memset_zero_def Let_def WA g_array_elt_pos_def
        unat_g_array_elt_len diff old_block_def)
  define c :: guint where "c = ucast (min (?WA div ucast (elt_size a)) (ucast G_MAXUINT))"
  have c: "unat c = min (max (2 ^ k) 16 div unat (elt_size a)) 4294967295"
    unfolding c_def unat_new_capacity[OF es] WA ..
  have "g_array_maybe_expand gc a n = Inr (a\<lparr>data := mem, elt_capacity := c\<rparr>)"
    using es nf gt ge by (simp add: g_array_maybe_expand_def Let_def mem_def c_def)
  with k c EL mem show ?thesis by auto
qed


lemma take_blk_write:
  assumes "m \<le> pos"
  shows "take m (blk_write blk pos src) = take m blk"
proof (cases "pos \<le> length blk")
  case True
  then show ?thesis using assms by (simp add: blk_write_def)
next
  case False
  then show ?thesis by (simp add: blk_write_def)
qed

lemma grown_block_keeps_elements:
  assumes "unat (len a) \<le> unat (elt_capacity a)"
    and "unat (elt_size a) * unat (len a) \<le> length (old_block a)"
    and "unat (elt_size a) * unat (len a) \<le> new_size"
  shows "take (unat (elt_size a) * unat (len a)) (grown_block gc a n new_size)
           = take (unat (elt_size a) * unat (len a)) (old_block a)"
proof -
  let ?m = "unat (elt_size a) * unat (len a)"
  let ?b0 = "take new_size (old_block a) @ replicate (new_size - length (old_block a)) None"
  have b0: "take ?m ?b0 = take ?m (old_block a)"
    using assms(2,3) by simp
  have le: "?m \<le> unat (elt_size a) * unat (elt_capacity a)"
    using assms(1) by (rule mult_le_mono2)
  show ?thesis
  proof (cases gc)
    case False
    then show ?thesis using b0 by (simp only: grown_block_def Let_def if_False)
  next
    case True
    then show ?thesis using b0 take_blk_write[OF le]
      by (simp only: grown_block_def Let_def if_True)
  qed
qed

lemma least_pow2_unique:
  assumes "m \<le> 2 ^ k" "\<forall>j<k. 2 ^ j < (m::nat)" "m \<le> 2 ^ i" "0 < i \<Longrightarrow> 2 ^ (i - 1) < m"
  shows "k = i"
proof (rule ccontr)
  assume "k \<noteq> i"
  then consider "k < i" | "i < k" by linarith
  then show False
  proof cases
    case 1
    then have "(2::nat) ^ k \<le> 2 ^ (i - 1)" by (intro power_increasing) simp_all
    moreover have "2 ^ (i - 1) < m" using assms(4) 1 by simp
    ultimately show False using assms(1) by linarith
  next
    case 2
    with assms(2) have "2 ^ i < m" by blast
    with assms(3) show False by simp
  qed
qed


section \<open>GArray: clear-function calls and the merge sort\<close>



lemma cmp_consistentD:
  assumes "cmp_consistent cmp"
  shows "cmp x x = 0"
    and "cmp x y = 0 \<Longrightarrow> cmp y x = 0"
    and "\<not> cmp x y \<le> 0 \<Longrightarrow> cmp y x \<le> 0"
    and "cmp x y \<le> 0 \<Longrightarrow> cmp y z \<le> 0 \<Longrightarrow> cmp x z \<le> 0"
proof -
  from assms have a: "\<And>x y. (cmp x y < 0) = (cmp y x > 0)"
    and t: "\<And>x y z. cmp x y \<le> 0 \<Longrightarrow> cmp y z \<le> 0 \<Longrightarrow> cmp x z \<le> 0"
    unfolding cmp_consistent_def by blast+
  show "cmp x x = 0" using a[of x x] by linarith
  show "cmp x y = 0 \<Longrightarrow> cmp y x = 0" using a[of x y] a[of y x] by linarith
  show "\<not> cmp x y \<le> 0 \<Longrightarrow> cmp y x \<le> 0" using a[of y x] by linarith
  show "cmp x y \<le> 0 \<Longrightarrow> cmp y z \<le> 0 \<Longrightarrow> cmp x z \<le> 0" by (rule t)
qed

lemma sorted_by_Cons:
  "sorted_by cmp (x # xs) \<longleftrightarrow> (\<forall>y\<in>set xs. cmp x y \<le> 0) \<and> sorted_by cmp xs"
  by (simp add: sorted_by_def)

lemma sorted_by_Nil [simp]: "sorted_by cmp []"
  by (simp add: sorted_by_def)

lemma set_merge_runs [simp]: "set (merge_runs cmp xs ys) = set xs \<union> set ys"
  by (induction cmp xs ys rule: merge_runs.induct) auto

lemma mset_merge_runs [simp]: "mset (merge_runs cmp xs ys) = mset xs + mset ys"
  by (induction cmp xs ys rule: merge_runs.induct) auto

lemma length_merge_runs [simp]: "length (merge_runs cmp xs ys) = length xs + length ys"
  by (induction cmp xs ys rule: merge_runs.induct) auto

lemma sorted_merge_runs:
  "cmp_consistent cmp \<Longrightarrow> sorted_by cmp xs \<Longrightarrow> sorted_by cmp ys
     \<Longrightarrow> sorted_by cmp (merge_runs cmp xs ys)"
proof (induction cmp xs ys rule: merge_runs.induct)
  case (3 cmp x xs y ys)
  note c = cmp_consistentD[OF "3.prems"(1)]
  from "3.prems" have sx: "\<forall>z\<in>set xs. cmp x z \<le> 0" "sorted_by cmp xs"
    and sy: "\<forall>z\<in>set ys. cmp y z \<le> 0" "sorted_by cmp ys"
    by (simp_all add: sorted_by_Cons)
  show ?case
  proof (cases "cmp x y \<le> 0")
    case True
    have "\<forall>z\<in>set (y # ys). cmp x z \<le> 0" using True sy(1) c(4)[of x y] by auto
    moreover have "sorted_by cmp (merge_runs cmp xs (y # ys))"
      using "3.IH"(1)[OF True "3.prems"(1) sx(2) "3.prems"(3)] .
    ultimately show ?thesis using True sx(1) by (auto simp: sorted_by_Cons)
  next
    case False
    then have yx: "cmp y x \<le> 0" by (rule c(3))
    have "\<forall>z\<in>set (x # xs). cmp y z \<le> 0" using yx sx(1) c(4)[of y x] by auto
    moreover have "sorted_by cmp (merge_runs cmp (x # xs) ys)"
      using "3.IH"(2)[OF False "3.prems"(1) "3.prems"(2) sy(2)] .
    ultimately show ?thesis using False sy(1) by (auto simp: sorted_by_Cons)
  qed
qed simp_all

lemma filter_merge_runs:
  "cmp_consistent cmp \<Longrightarrow> sorted_by cmp xs
     \<Longrightarrow> filter (\<lambda>z. cmp z e = 0) (merge_runs cmp xs ys)
         = filter (\<lambda>z. cmp z e = 0) xs @ filter (\<lambda>z. cmp z e = 0) ys"
proof (induction cmp xs ys rule: merge_runs.induct)
  case (3 cmp x xs y ys)
  note c = cmp_consistentD[OF "3.prems"(1)]
  from "3.prems" have sx: "\<forall>z\<in>set xs. cmp x z \<le> 0" "sorted_by cmp xs"
    by (simp_all add: sorted_by_Cons)
  show ?case
  proof (cases "cmp x y \<le> 0")
    case True
    with "3.IH"(1)[OF True "3.prems"(1) sx(2)] show ?thesis by simp
  next
    case False
    have none: "cmp y e = 0 \<Longrightarrow> filter (\<lambda>z. cmp z e = 0) (x # xs) = []"
    proof -
      assume ye: "cmp y e = 0"
      have "cmp z e \<noteq> 0" if z: "z \<in> set (x # xs)" for z
      proof
        assume ze: "cmp z e = 0"
        have xz: "cmp x z \<le> 0" using z sx(1) c(1)[of x] by auto
        have "cmp e y = 0" using ye by (rule c(2))
        then have "cmp z y \<le> 0" using ze c(4)[of z e y] by simp
        with xz have "cmp x y \<le> 0" by (rule c(4))
        with False show False by simp
      qed
      then show ?thesis by (simp only: filter_empty_conv) blast
    qed
    from "3.IH"(2)[OF False "3.prems"(1) "3.prems"(2)]
    have ih: "filter (\<lambda>z. cmp z e = 0) (merge_runs cmp (x # xs) ys)
        = filter (\<lambda>z. cmp z e = 0) (x # xs) @ filter (\<lambda>z. cmp z e = 0) ys" .
    show ?thesis
    proof (cases "cmp y e = 0")
      case True
      from none[OF True] have n': "filter (\<lambda>z. cmp z e = 0) (x # xs) = []" .
      have "filter (\<lambda>z. cmp z e = 0) (merge_runs cmp (x # xs) (y # ys))
          = y # filter (\<lambda>z. cmp z e = 0) (merge_runs cmp (x # xs) ys)"
        using False True by simp
      also have "\<dots> = y # filter (\<lambda>z. cmp z e = 0) ys" unfolding ih n' by simp
      also have "\<dots> = filter (\<lambda>z. cmp z e = 0) (x # xs) @ filter (\<lambda>z. cmp z e = 0) (y # ys)"
        unfolding n' using True by simp
      finally show ?thesis .
    next
      case ne: False
      have "filter (\<lambda>z. cmp z e = 0) (merge_runs cmp (x # xs) (y # ys))
          = filter (\<lambda>z. cmp z e = 0) (merge_runs cmp (x # xs) ys)"
        using False ne by simp
      also have "\<dots> = filter (\<lambda>z. cmp z e = 0) (x # xs) @ filter (\<lambda>z. cmp z e = 0) (y # ys)"
        unfolding ih using ne by simp
      finally show ?thesis .
    qed
  qed
qed simp_all

lemma merge_runs_sorted_append:
  "sorted_by cmp (xs @ ys) \<Longrightarrow> merge_runs cmp xs ys = xs @ ys"
proof (induction cmp xs ys rule: merge_runs.induct)
  case (3 cmp x xs y ys)
  from "3.prems" have xy: "cmp x y \<le> 0" and rest: "sorted_by cmp (xs @ y # ys)"
    by (simp_all add: sorted_by_def sorted_wrt_append)
  from "3.IH"(1)[OF xy rest] xy show ?case by simp
qed simp_all

lemma msort_with_props:
  "cmp_consistent cmp \<Longrightarrow>
     sorted_by cmp (msort_with cmp xs) \<and> mset (msort_with cmp xs) = mset xs
     \<and> length (msort_with cmp xs) = length xs
     \<and> filter (\<lambda>z. cmp z e = 0) (msort_with cmp xs) = filter (\<lambda>z. cmp z e = 0) xs"
proof (induction cmp xs rule: msort_with.induct)
  case (1 cmp xs)
  show ?case
  proof (cases "length xs \<le> 1")
    case True
    then have "xs = [] \<or> (\<exists>x. xs = [x])" by (cases xs) auto
    then have "sorted_by cmp xs" by (auto simp: sorted_by_def)
    with True show ?thesis by (subst (1 2 3 4) msort_with.simps) simp
  next
    case False
    let ?l = "msort_with cmp (take (length xs div 2) xs)"
    let ?r = "msort_with cmp (drop (length xs div 2) xs)"
    note l = "1.IH"(1)[OF False "1.prems"]
    note r = "1.IH"(2)[OF False "1.prems"]
    have eq: "msort_with cmp xs = merge_runs cmp ?l ?r"
      using False by (subst msort_with.simps) simp
    have "sorted_by cmp (merge_runs cmp ?l ?r)"
      using l r by (intro sorted_merge_runs[OF "1.prems"]) simp_all
    moreover have "mset (merge_runs cmp ?l ?r) = mset xs"
      using l r by (simp flip: mset_append)
    moreover have "length (merge_runs cmp ?l ?r) = length xs"
      using l r by simp
    moreover have "filter (\<lambda>z. cmp z e = 0) (merge_runs cmp ?l ?r)
        = filter (\<lambda>z. cmp z e = 0) xs"
    proof -
      have "filter (\<lambda>z. cmp z e = 0) (merge_runs cmp ?l ?r)
          = filter (\<lambda>z. cmp z e = 0) ?l @ filter (\<lambda>z. cmp z e = 0) ?r"
        using l by (intro filter_merge_runs[OF "1.prems"]) simp
      also have "\<dots> = filter (\<lambda>z. cmp z e = 0) (take (length xs div 2) xs)
          @ filter (\<lambda>z. cmp z e = 0) (drop (length xs div 2) xs)"
        using l r by simp
      also have "\<dots> = filter (\<lambda>z. cmp z e = 0) xs"
        by (simp only: filter_append[symmetric] append_take_drop_id)
      finally show ?thesis .
    qed
    ultimately show ?thesis unfolding eq by simp
  qed
qed

lemma msort_with_sorted_id:
  "sorted_by cmp xs \<Longrightarrow> msort_with cmp xs = xs"
proof (induction cmp xs rule: msort_with.induct)
  case (1 cmp xs)
  show ?case
  proof (cases "length xs \<le> 1")
    case True
    then show ?thesis by (subst msort_with.simps) simp
  next
    case False
    have s: "sorted_by cmp (take (length xs div 2) xs @ drop (length xs div 2) xs)"
      using "1.prems" by simp
    then have "sorted_by cmp (take (length xs div 2) xs)" "sorted_by cmp (drop (length xs div 2) xs)"
      unfolding sorted_by_def sorted_wrt_append by blast+
    with "1.IH"[OF False] have
      "msort_with cmp (take (length xs div 2) xs) = take (length xs div 2) xs"
      "msort_with cmp (drop (length xs div 2) xs) = drop (length xs div 2) xs"
      by simp_all
    with merge_runs_sorted_append[OF s] False show ?thesis
      by (subst msort_with.simps) simp
  qed
qed

lemma blk_elements_Suc:
  "blk_elements b (Suc n) es = blk_read b 0 es # blk_elements (drop es b) n es"
proof -
  have "blk_read b (es * Suc i) es = blk_read (drop es b) (es * i) es" for i
    by (simp add: blk_read_def add.commute)
  then show ?thesis
    unfolding blk_elements_def by (simp add: map_upt_Suc del: upt_Suc)
qed

lemma blk_elements_0 [simp]: "blk_elements b 0 es = []"
  by (simp add: blk_elements_def)

lemma blk_elements_concat:
  "\<forall>x\<in>set xs. length x = es \<Longrightarrow> blk_elements (concat xs @ rest) (length xs) es = xs"
proof (induction xs)
  case Nil
  then show ?case by simp
next
  case (Cons x xs)
  then have lx: "length x = es" and rest: "\<forall>y\<in>set xs. length y = es" by simp_all
  have "blk_read (concat (x # xs) @ rest) 0 es = x" using lx by (simp add: blk_read_def)
  moreover have "drop es (concat (x # xs) @ rest) = concat xs @ rest" using lx by simp
  ultimately show ?case using Cons.IH[OF rest] by (simp add: blk_elements_Suc del: concat.simps)
qed

lemma length_blk_elements [simp]: "length (blk_elements b n es) = n"
  by (simp add: blk_elements_def)

lemma blk_elements_lengths:
  assumes "es * n \<le> length b" and "x \<in> set (blk_elements b n es)"
  shows "length x = es"
proof -
  from assms(2) obtain i where i: "i < n" and x: "x = blk_read b (es * i) es"
    by (auto simp: blk_elements_def)
  have "es * i + es = es * Suc i" by simp
  also have "\<dots> \<le> es * n" using i by (intro mult_le_mono2) simp
  finally have "es * i + es \<le> length b" using assms(1) by simp
  then show ?thesis by (simp add: x blk_read_def)
qed

lemma length_concat_uniform:
  "\<forall>x\<in>set xs. length x = es \<Longrightarrow> length (concat xs) = es * length xs"
  by (induction xs) simp_all

lemma blk_write_prefix:
  "length src \<le> length b \<Longrightarrow> blk_write b 0 src = src @ drop (length src) b"
  by (simp add: blk_write_def)

lemma mset_msort_with [simp]: "mset (msort_with cmp xs) = mset xs"
proof (induction cmp xs rule: msort_with.induct)
  case (1 cmp xs)
  show ?case
  proof (cases "length xs \<le> 1")
    case True
    then show ?thesis by (subst msort_with.simps) simp
  next
    case False
    have "mset (msort_with cmp xs)
        = mset (take (length xs div 2) xs) + mset (drop (length xs div 2) xs)"
      using False "1.IH" by (subst msort_with.simps) simp
    also have "\<dots> = mset xs" by (simp flip: mset_append)
    finally show ?thesis .
  qed
qed

lemma set_msort_with [simp]: "set (msort_with cmp xs) = set xs"
  using mset_msort_with[of cmp xs] by (rule mset_eq_setD)

lemma length_msort_with [simp]: "length (msort_with cmp xs) = length xs"
  using mset_msort_with[of cmp xs] by (rule mset_eq_length)

lemma g_sort_array_result:
  assumes fit: "es * n \<le> length b"
  shows "g_sort_array b n es cf u
           = concat (msort_with (\<lambda>x y. cf x y u) (blk_elements b n es)) @ drop (es * n) b"
    and "blk_elements (g_sort_array b n es cf u) n es
           = msort_with (\<lambda>x y. cf x y u) (blk_elements b n es)"
proof -
  let ?xs = "blk_elements b n es"
  let ?ys = "msort_with (\<lambda>x y. cf x y u) ?xs"
  have len: "\<forall>y\<in>set ?ys. length y = es"
    using blk_elements_lengths[OF fit] by simp
  then have lc: "length (concat ?ys) = es * n"
    using length_concat_uniform[of ?ys es] by simp
  show r: "g_sort_array b n es cf u = concat ?ys @ drop (es * n) b"
    unfolding g_sort_array_def using blk_write_prefix[of "concat ?ys" b] lc fit by simp
  show "blk_elements (g_sort_array b n es cf u) n es = ?ys"
    unfolding r using blk_elements_concat[OF len, of "drop (es * n) b"] by simp
qed

lemma g_sort_array_sorted_id:
  assumes fit: "es * n \<le> length b"
    and s: "sorted_by (\<lambda>x y. cf x y u) (blk_elements b n es)"
  shows "g_sort_array b n es cf u = b"
proof -
  let ?xs = "blk_elements b n es"
  have len: "\<forall>y\<in>set ?xs. length y = es" using blk_elements_lengths[OF fit] by simp
  have "concat ?xs = take (es * n) b"
    using fit
  proof (induction n arbitrary: b)
    case 0
    then show ?case by simp
  next
    case (Suc n)
    from Suc.prems have "es * n \<le> length (drop es b)" by simp
    from Suc.IH[OF this] have "concat (blk_elements (drop es b) n es) = take (es * n) (drop es b)" .
    then have "concat (blk_elements b (Suc n) es) = take es b @ take (es * n) (drop es b)"
      by (simp add: blk_elements_Suc blk_read_def)
    also have "\<dots> = take (es * Suc n) b"
      by (simp add: take_add)
    finally show ?case .
  qed
  then show ?thesis
    using g_sort_array_result(1)[OF fit, of cf u] msort_with_sorted_id[OF s] by simp
qed

lemma unat_of_nat_guint: "i < unat (n :: guint) \<Longrightarrow> unat (of_nat i :: guint) = i"
  using unat_guint_bound[of n] by (simp add: unat_of_nat)

lemma g_array_elts_blk:
  assumes "data a = Some b"
  shows "g_array_elts a = blk_elements b (unat (len a)) (unat (elt_size a))"
  unfolding g_array_elts_def blk_elements_def
  using assms
  by (auto simp: g_array_elt_def g_array_elt_pos_def unat_g_array_elt_len unat_of_nat_guint)

section \<open>g_file_set_contents_full: what each step does to the file system and to the trace\<close>

lemma only_touches_refl [simp]: "only_touches p w w"
  by (simp add: only_touches_def)

lemma only_touches_trans: "only_touches p w w1 \<Longrightarrow> only_touches p w1 w2 \<Longrightarrow> only_touches p w w2"
  by (simp add: only_touches_def)

lemma only_touches_same_files: "files w' = files w \<Longrightarrow> only_touches p w w'"
  by (simp add: only_touches_def)

lemma files_called [simp]: "files (called c w) = files w"
  by (simp add: called_def)

lemma trace_called [simp]: "trace (called c w) = trace w @ [c]"
  by (simp add: called_def)

lemma tmp_counter_called [simp]: "tmp_counter (called c w) = tmp_counter w"
  by (simp add: called_def)

lemma files_update_node: "files (update_node w p g) = (files w)(p := map_option g (files w p))"
  by (simp add: update_node_def)

lemma trace_update_node [simp]: "trace (update_node w p g) = trace w"
  by (simp add: update_node_def)

lemma sys_fsync_simps [simp]:
  "files (snd (sys_fsync k w d)) = files w"
  "trace (snd (sys_fsync k w d)) = trace w @ [Sys_fsync (fd_path d)]"
  "fst (sys_fsync k w d) = fsync_fault k (fd_path d)"
  by (simp_all add: sys_fsync_def)

lemma sys_close_simps [simp]:
  "files (snd (sys_close k w d)) = files w"
  "trace (snd (sys_close k w d)) = trace w @ [Sys_close (fd_path d)]"
  "fst (sys_close k w d) = close_fault k"
  by (simp_all add: sys_close_def)

lemma sys_unlink_simps [simp]:
  "files (sys_unlink w p) = (files w)(p := None)"
  "trace (sys_unlink w p) = trace w @ [Sys_unlink p]"
  by (simp_all add: sys_unlink_def)

lemma sys_stat_simps [simp]:
  "files (snd (sys_stat k w p)) = files w"
  "trace (snd (sys_stat k w p)) = trace w @ [Sys_stat p]"
  by (simp_all add: sys_stat_def Let_def split: option.splits)

lemma sys_lstat_simps [simp]:
  "files (snd (sys_lstat k w p)) = files w"
  "trace (snd (sys_lstat k w p)) = trace w @ [Sys_lstat p]"
  by (simp_all add: sys_lstat_def Let_def split: option.splits node.splits)

lemma sys_fchmod_simps:
  "trace (snd (sys_fchmod k w d m)) = trace w @ [Sys_fchmod (fd_path d)]"
  "fst (sys_fchmod k w d m) = fchmod_fault k"
  "fst (sys_fchmod k w d m) \<noteq> None \<Longrightarrow> files (snd (sys_fchmod k w d m)) = files w"
  "files (snd (sys_fchmod k w d m)) (fd_path d) = None \<longleftrightarrow> files w (fd_path d) = None"
  "only_touches (fd_path d) w (snd (sys_fchmod k w d m))"
  by (auto simp: sys_fchmod_def Let_def files_update_node only_touches_def split: option.splits)

lemma sys_fallocate_simps:
  "trace (snd (sys_fallocate k w d off n)) = trace w @ [Sys_fallocate (fd_path d)]"
  "only_touches (fd_path d) w (snd (sys_fallocate k w d off n))"
  by (auto simp: sys_fallocate_def Let_def files_update_node only_touches_def split: option.splits)

lemma sys_write_ok_simps:
  "trace (snd (sys_write_ok w d bs)) = trace w"
  "fd_path (fst (sys_write_ok w d bs)) = fd_path d"
  "fd_off (fst (sys_write_ok w d bs)) = fd_off d + length bs"
  "only_touches (fd_path d) w (snd (sys_write_ok w d bs))"
  by (auto simp: sys_write_ok_def files_update_node only_touches_def)

lemma sys_rename_cases:
  "sys_rename k w old new = (r, w') \<Longrightarrow>
     trace w' = trace w @ [Sys_rename old new]
     \<and> (case r of
           Some e \<Rightarrow> files w' = files w \<and> (rename_fault k = Some e \<or> files w old = None)
         | None \<Rightarrow> rename_fault k = None
              \<and> (\<exists>n. files w old = Some n \<and> files w' = (files w)(new \<mapsto> n, old := None)))"
  by (auto simp: sys_rename_def Let_def split: option.splits)

lemma no_fsync_simps [simp]:
  "no_fsync []"
  "no_fsync (t @ u) \<longleftrightarrow> no_fsync t \<and> no_fsync u"
  "no_fsync (c # t) \<longleftrightarrow> (\<forall>p. c \<noteq> Sys_fsync p) \<and> no_fsync t"
  by (auto simp: no_fsync_def)

lemma sys_open_excl_cases:
  assumes "sys_open_excl k w path mode = (r, w')"
  shows "trace w' = trace w @ [Sys_open path] \<and> tmp_counter w' = tmp_counter w
       \<and> (case r of
             Inl e \<Rightarrow> files w' = files w
           | Inr d \<Rightarrow> d = \<lparr>fd_path = path, fd_off = 0\<rparr> \<and> files w path = None
                \<and> files w' = (files w)(path \<mapsto> Regular [] mode))"
  using assms by (auto simp: sys_open_excl_def Let_def split: option.splits if_splits)

lemma get_tmp_file_loop_cases:
  "get_tmp_file_loop k w pre tmpl post mode cnt v = (r, tmpl', w') \<Longrightarrow>
     tmp_counter w' = tmp_counter w
     \<and> (\<exists>t. trace w' = trace w @ t \<and> no_fsync t)
     \<and> (case r of
           Inl e \<Rightarrow> files w' = files w
         | Inr d \<Rightarrow> fd_path d = tmpl' \<and> fd_off d = 0 \<and> files w tmpl' = None
              \<and> files w' = (files w)(tmpl' \<mapsto> Regular [] mode)
              \<and> (\<exists>v'. tmpl' = pre @ random_bits v' @ post))"
proof (induction k w pre tmpl post mode cnt v rule: get_tmp_file_loop.induct)
  case (1 k w pre tmpl post mode cnt v)
  show ?case
  proof (cases "cnt < 100")
    case False
    with "1.prems" show ?thesis by (auto simp: get_tmp_file_loop.simps)
  next
    case True
    let ?name = "pre @ random_bits v @ post"
    obtain r1 w1 where o: "sys_open_excl k w ?name mode = (r1, w1)" by force
    note c = sys_open_excl_cases[OF o]
    show ?thesis
    proof (cases r1)
      case (Inr d)
      with "1.prems" True o have "r = Inr d" "tmpl' = ?name" "w' = w1"
        by (simp_all add: get_tmp_file_loop.simps[of k w])
      with c Inr show ?thesis by auto
    next
      case (Inl e)
      show ?thesis
      proof (cases "e = EEXIST")
        case False
        with "1.prems" True o Inl have "r = Inl e" "w' = w1"
          by (simp_all add: get_tmp_file_loop.simps[of k w])
        with c Inl show ?thesis by auto
      next
        case e: True
        with "1.prems" True o Inl
        have rec: "get_tmp_file_loop k w1 pre ?name post mode (cnt + 1) (v + 7777)
            = (r, tmpl', w')"
          by (simp add: get_tmp_file_loop.simps[of k w])
        have ne: "\<not> e \<noteq> EEXIST" using e by simp
        from "1.IH"[OF True refl o[symmetric] Inl ne rec]
        have ih: "tmp_counter w' = tmp_counter w1
           \<and> (\<exists>t. trace w' = trace w1 @ t \<and> no_fsync t)
           \<and> (case r of
                 Inl e \<Rightarrow> files w' = files w1
               | Inr d \<Rightarrow> fd_path d = tmpl' \<and> fd_off d = 0 \<and> files w1 tmpl' = None
                    \<and> files w' = (files w1)(tmpl' \<mapsto> Regular [] mode)
                    \<and> (\<exists>v'. tmpl' = pre @ random_bits v' @ post))"
          by simp
        from c Inl have w1: "trace w1 = trace w @ [Sys_open ?name]"
          "tmp_counter w1 = tmp_counter w" "files w1 = files w" by simp_all
        from ih show ?thesis unfolding w1 by (auto split: sum.splits)
      qed
    qed
  qed
qed

lemma length_random_bits [simp]: "length (random_bits v) = 6"
  by (simp add: random_bits_def Let_def)

lemma g_strrstr_template:
  "g_strrstr (filename @ ''.XXXXXX'') ''XXXXXX'' = Some (Suc (length filename))"
proof -
  have r: "rev [0..<Suc (Suc (length filename))]
      = Suc (length filename) # rev [0..<Suc (length filename)]"
    by simp
  have l: "length (filename @ ''.XXXXXX'') - length ''XXXXXX'' = Suc (length filename)"
    by simp
  have p: "take (length ''XXXXXX'') (drop (Suc (length filename)) (filename @ ''.XXXXXX''))
      = ''XXXXXX''"
    by simp
  show ?thesis
    unfolding g_strrstr_def l r by (simp only: find.simps p refl if_True)
qed

lemma g_mkstemp_full_cases:
  assumes "g_mkstemp_full k w (filename @ ''.XXXXXX'') mode = (r, tmpl', w')"
  shows "(\<exists>t. trace w' = trace w @ t \<and> no_fsync t)
       \<and> (case r of
             Inl e \<Rightarrow> files w' = files w
           | Inr d \<Rightarrow> fd_path d = tmpl' \<and> fd_off d = 0 \<and> files w tmpl' = None
                \<and> files w' = (files w)(tmpl' \<mapsto> Regular [] mode)
                \<and> length tmpl' = length filename + 7)"
proof -
  let ?w0 = "w\<lparr>tmp_counter := tmp_counter w + 1\<rparr>"
  from assms obtain v where
    l: "get_tmp_file_loop k ?w0 (filename @ ''.'') (filename @ ''.XXXXXX'') [] mode 0 v
          = (r, tmpl', w')"
    by (simp add: g_mkstemp_full_def get_tmp_file_def g_strrstr_template Let_def)
  from get_tmp_file_loop_cases[OF l] show ?thesis
    by (auto split: sum.splits)
qed

lemma write_at_Nil [simp]: "write_at off [] c = c"
  by (simp add: write_at_def)

lemma write_at_write_at:
  "write_at (off + length xs) ys (write_at off xs c) = write_at off (xs @ ys) c"
proof (cases "xs = [] \<or> ys = []")
  case True
  then show ?thesis by auto
next
  case False
  have m: "min (length c) off + (off - length c) = off" by simp
  have "length (take off (c @ replicate (off - length c) 0)) = off" by simp
  then show ?thesis using False
    by (simp add: write_at_def m ac_simps)
qed

lemma set_bytes_id [simp]: "set_bytes (\<lambda>a. a) = (\<lambda>n. n)"
  by (auto simp: fun_eq_iff set_bytes_def split: node.splits)

lemma set_bytes_set_bytes: "set_bytes g (set_bytes f n) = set_bytes (g \<circ> f) n"
  by (cases n) (simp_all add: set_bytes_def)

lemma write_loop_Nil:
  "write_loop [] w contents n d dest = (if n > 0 then None else Some (All_written, d, w))"
  by (simp add: write_loop.simps[of "[]"])

lemma write_loop_Cons:
  "write_loop (r # script) w contents n d dest =
     (if n > 0 then
        (case r of
           Write_failed saved_errno \<Rightarrow>
             if saved_errno = EINTR
             then write_loop script (called (Sys_write (fd_path d)) w) contents n d dest
             else Some (Write_error (GError Failed_write dest saved_errno), d,
                        called (Sys_write (fd_path d)) w)
         | Wrote s \<Rightarrow>
             if \<not> s \<le> n then Some (Assertion_failed, d, called (Sys_write (fd_path d)) w)
             else
               let (d, w) = sys_write_ok (called (Sys_write (fd_path d)) w) d
                              (take s (take (min n G_MAXSSIZE) contents))
               in write_loop script w (drop s contents) (n - s) d dest)
      else Some (All_written, d, w))"
  by (simp add: write_loop.simps[of "r # script"] Let_def)

lemma write_loop_cases:
  "write_loop script w contents n d dest = Some (e, d', w') \<Longrightarrow>
     fd_path d' = fd_path d \<and> only_touches (fd_path d) w w'
     \<and> (\<exists>t. trace w' = trace w @ t \<and> no_fsync t)
     \<and> (\<forall>err. e = Write_error err \<longrightarrow>
           (\<exists>er. err = GError Failed_write dest er \<and> Write_failed er \<in> set script))
     \<and> (e = All_written \<longrightarrow> n \<le> length contents \<longrightarrow> n \<le> G_MAXSSIZE \<longrightarrow>
           files w' (fd_path d)
             = map_option (set_bytes (write_at (fd_off d) (take n contents))) (files w (fd_path d)))"
proof (induction script w contents n d dest rule: write_loop.induct)
  case (1 script w contents n d dest)
  show ?case
  proof (cases "n > 0")
    case False
    with "1.prems" have "e = All_written" "d' = d" "w' = w"
      by (cases script; simp add: write_loop_Nil write_loop_Cons)+
    moreover have "map_option (set_bytes (write_at (fd_off d) [])) (files w (fd_path d))
        = files w (fd_path d)"
      by (cases "files w (fd_path d)")
         (auto simp: set_bytes_def split: node.splits)
    ultimately show ?thesis using False by (simp add: option.map_ident[unfolded id_def])
  next
    case True
    with "1.prems" obtain r rest where sc: "script = r # rest"
      by (cases script) (simp_all add: write_loop_Nil)
    let ?w0 = "called (Sys_write (fd_path d)) w"
    show ?thesis
    proof (cases r)
      case (Write_failed er)
      show ?thesis
      proof (cases "er = EINTR")
        case False
        with "1.prems" True sc Write_failed
        have "e = Write_error (GError Failed_write dest er)" "d' = d" "w' = ?w0"
          by (auto simp: write_loop_Cons)
        then show ?thesis using sc Write_failed by (simp add: only_touches_def)
      next
        case eintr: True
        with "1.prems" True sc Write_failed
        have rec: "write_loop rest ?w0 contents n d dest = Some (e, d', w')"
          by (simp add: write_loop_Cons)
        from "1.IH"(2)[OF True sc refl Write_failed eintr rec]
        show ?thesis using sc by (auto simp: only_touches_def)
      qed
    next
      case (Wrote s)
      show ?thesis
      proof (cases "s \<le> n")
        case False
        with "1.prems" True sc Wrote
        have "e = Assertion_failed" "d' = d" "w' = ?w0"
          by (auto simp: write_loop_Cons)
        then show ?thesis by (simp add: only_touches_def)
      next
        case sn: True
        let ?bs = "take s (take (min n G_MAXSSIZE) contents)"
        obtain d1 w1 where wo: "sys_write_ok ?w0 d ?bs = (d1, w1)" by force
        then have d1: "fd_path d1 = fd_path d" "fd_off d1 = fd_off d + length ?bs"
          and w1: "trace w1 = trace w @ [Sys_write (fd_path d)]"
            "only_touches (fd_path d) w w1"
            "files w1 (fd_path d) = map_option (set_bytes (write_at (fd_off d) ?bs)) (files w (fd_path d))"
          by (auto simp: sys_write_ok_def files_update_node only_touches_def)
        from "1.prems" True sc Wrote sn wo
        have rec: "write_loop rest w1 (drop s contents) (n - s) d1 dest = Some (e, d', w')"
          by (simp add: write_loop_Cons)
        have nsn: "\<not> \<not> s \<le> n" using sn by simp
        from "1.IH"(1)[OF True sc refl Wrote nsn refl wo[symmetric] rec]
        have ih: "fd_path d' = fd_path d1" "only_touches (fd_path d1) w1 w'"
          "\<exists>t. trace w' = trace w1 @ t \<and> no_fsync t"
          "\<forall>err. e = Write_error err \<longrightarrow>
             (\<exists>er. err = GError Failed_write dest er \<and> Write_failed er \<in> set rest)"
          "e = All_written \<longrightarrow> n - s \<le> length (drop s contents) \<longrightarrow> n - s \<le> G_MAXSSIZE \<longrightarrow>
             files w' (fd_path d1)
               = map_option (set_bytes (write_at (fd_off d1) (take (n - s) (drop s contents))))
                   (files w1 (fd_path d1))"
          by auto
        have "e = All_written \<longrightarrow> n \<le> length contents \<longrightarrow> n \<le> G_MAXSSIZE \<longrightarrow>
           files w' (fd_path d)
             = map_option (set_bytes (write_at (fd_off d) (take n contents))) (files w (fd_path d))"
        proof (intro impI)
          assume a: "e = All_written" "n \<le> length contents" "n \<le> G_MAXSSIZE"
          then have bs: "?bs = take s contents" "length ?bs = s" using sn by (simp_all add: min_def)
          have "take s contents @ take (n - s) (drop s contents) = take n contents"
            using sn by (metis le_add_diff_inverse take_add)
          then have comp: "write_at (fd_off d + s) (take (n - s) (drop s contents))
                 \<circ> write_at (fd_off d) (take s contents)
               = write_at (fd_off d) (take n contents)"
            using write_at_write_at[of "fd_off d" "take s contents" "take (n - s) (drop s contents)"]
              bs sn a(2) by (auto simp: fun_eq_iff)
          from ih(5) a sn
          have "files w' (fd_path d)
              = map_option (set_bytes (write_at (fd_off d + s) (take (n - s) (drop s contents))))
                  (files w1 (fd_path d))"
            unfolding d1 bs by simp
          also have "\<dots> = map_option (set_bytes (write_at (fd_off d) (take n contents)))
                  (files w (fd_path d))"
            unfolding w1(3) bs
            by (simp add: option.map_comp comp_def set_bytes_set_bytes flip: comp)
          finally show "files w' (fd_path d)
             = map_option (set_bytes (write_at (fd_off d) (take n contents))) (files w (fd_path d))" .
        qed
        moreover have "only_touches (fd_path d) w w'"
          using w1(2) ih(2) unfolding d1 by (rule only_touches_trans)
        moreover have "\<exists>t. trace w' = trace w @ t \<and> no_fsync t"
          using ih(3) unfolding w1(1) by auto
        ultimately show ?thesis using ih(1,4) d1 sc by auto
      qed
    qed
  qed
qed

lemma write_to_file_cases:
  assumes r: "write_to_file k w contents n d dest do_fsync = Some (r, w')"
  shows "only_touches (fd_path d) w w'
     \<and> (\<exists>t. trace w' = trace w @ t \<and> (\<not> do_fsync \<longrightarrow> no_fsync t)
            \<and> (\<forall>p. Sys_fsync p \<in> set t \<longrightarrow> p = fd_path d))
     \<and> (\<forall>err. r = Failed err \<longrightarrow>
           (\<exists>step e. err = GError step dest e
              \<and> (step = Failed_write \<and> Write_failed e \<in> set (write_script k)
                 \<or> step = Failed_fsync \<and> do_fsync \<and> fsync_fault k (fd_path d) = Some e
                 \<or> step = Failed_close \<and> close_fault k = Some e)))
     \<and> r \<noteq> Rejected
     \<and> (r = Success \<longrightarrow> n \<le> length contents \<longrightarrow> n \<le> G_MAXSSIZE \<longrightarrow> fd_off d = 0 \<longrightarrow>
           (\<forall>m. files w (fd_path d) = Some (Regular [] m) \<longrightarrow>
                files w' (fd_path d) = Some (Regular (take n contents) m)))"
proof -
  define w0 where "w0 = (if n > 0 then snd (sys_fallocate k w d 0 n) else w)"
  have w0t: "\<exists>t. trace w0 = trace w @ t \<and> no_fsync t"
    by (auto simp: w0_def sys_fallocate_simps)
  have w0f: "only_touches (fd_path d) w w0"
    by (auto simp: w0_def sys_fallocate_simps)
  have w0c: "files w (fd_path d) = Some (Regular [] m) \<Longrightarrow>
      \<exists>c. files w0 (fd_path d) = Some (Regular c m) \<and> length c \<le> n \<and> (n = 0 \<longrightarrow> c = [])" for m
    by (auto simp: w0_def sys_fallocate_def Let_def files_update_node set_bytes_def
        split: option.splits)
  from r obtain e d1 w1 where l: "write_loop (write_script k) w0 contents n d dest = Some (e, d1, w1)"
    by (auto simp: write_to_file_def w0_def Let_def split: option.splits)
  note lc = write_loop_cases[OF l]
  from lc have d1: "fd_path d1 = fd_path d" and f1: "only_touches (fd_path d) w0 w1"
    and t1: "\<exists>t. trace w1 = trace w0 @ t \<and> no_fsync t" by simp_all
  from w0t t1 obtain t01 where t01: "trace w1 = trace w @ t01" "no_fsync t01" by auto
  have f01: "only_touches (fd_path d) w w1" using w0f f1 by (rule only_touches_trans)
  have content: "r = Success \<longrightarrow> n \<le> length contents \<longrightarrow> n \<le> G_MAXSSIZE \<longrightarrow> fd_off d = 0 \<longrightarrow>
           (\<forall>m. files w (fd_path d) = Some (Regular [] m) \<longrightarrow> e = All_written \<longrightarrow>
                files w1 (fd_path d) = Some (Regular (take n contents) m))"
  proof (intro impI allI)
    fix m
    assume a: "n \<le> length contents" "n \<le> G_MAXSSIZE" "fd_off d = 0"
      "files w (fd_path d) = Some (Regular [] m)" "e = All_written"
    from w0c[OF a(4)] obtain c where c: "files w0 (fd_path d) = Some (Regular c m)"
      "length c \<le> n" "n = 0 \<longrightarrow> c = []" by blast
    from lc a have "files w1 (fd_path d)
        = map_option (set_bytes (write_at 0 (take n contents))) (files w0 (fd_path d))"
      by simp
    also have "\<dots> = Some (Regular (write_at 0 (take n contents) c) m)"
      by (simp add: c set_bytes_def)
    also have "write_at 0 (take n contents) c = take n contents"
      using c(2,3) a(1) by (auto simp: write_at_def)
    finally show "files w1 (fd_path d) = Some (Regular (take n contents) m)" .
  qed
  show ?thesis
  proof (cases e)
    case Assertion_failed
    with r l have "r = Aborted" "w' = w1"
      by (auto simp: write_to_file_def w0_def Let_def)
    with f01 t01 show ?thesis by (auto simp: no_fsync_def)
  next
    case (Write_error err)
    with r l have rw: "r = Failed err" "w' = snd (sys_close k w1 d1)"
      by (auto simp: write_to_file_def w0_def Let_def)
    from lc Write_error obtain er where "err = GError Failed_write dest er"
      "Write_failed er \<in> set (write_script k)" by auto
    moreover have "only_touches (fd_path d) w w'"
      using f01 by (simp add: rw only_touches_def)
    moreover have "trace w' = trace w @ (t01 @ [Sys_close (fd_path d)])"
      by (simp add: rw t01 d1)
    moreover have "no_fsync (t01 @ [Sys_close (fd_path d)])" using t01 by simp
    ultimately show ?thesis using rw(1) unfolding no_fsync_def by blast
  next
    case All_written
    show ?thesis
    proof (cases "do_fsync \<and> fsync_fault k (fd_path d) \<noteq> None")
      case True
      then obtain er where er: "fsync_fault k (fd_path d) = Some er" by auto
      let ?w2 = "snd (sys_fsync k w1 d1)"
      from True er r l All_written
      have rw: "r = Failed (GError Failed_fsync dest er)" "w' = snd (sys_close k ?w2 d1)"
        by (auto simp: write_to_file_def w0_def Let_def d1 sys_fsync_def split: prod.splits)
      have "only_touches (fd_path d) w w'" using f01 by (simp add: rw only_touches_def)
      moreover have "trace w' = trace w @ (t01 @ [Sys_fsync (fd_path d), Sys_close (fd_path d)])"
        by (simp add: rw t01 d1)
      moreover have "\<forall>p. Sys_fsync p \<in> set (t01 @ [Sys_fsync (fd_path d), Sys_close (fd_path d)])
          \<longrightarrow> p = fd_path d"
        using t01(2) by (auto simp: no_fsync_def)
      ultimately show ?thesis using rw(1) True er by blast
    next
      case False
      define w2 where "w2 = (if do_fsync then snd (sys_fsync k w1 d1) else w1)"
      have fs: "(if do_fsync then sys_fsync k w1 d1 else (None, w1)) = (None, w2)"
        using False by (auto simp: w2_def sys_fsync_def d1)
      obtain t12 where t12: "trace w2 = trace w1 @ t12" "\<not> do_fsync \<longrightarrow> t12 = []"
        "\<forall>p. Sys_fsync p \<in> set t12 \<longrightarrow> p = fd_path d"
        by (cases do_fsync) (auto simp: w2_def d1)
      have f2: "files w2 = files w1" by (simp add: w2_def)
      have tr: "trace (snd (sys_close k w2 d1)) = trace w @ (t01 @ t12 @ [Sys_close (fd_path d)])"
        by (simp add: t01 t12 d1)
      have nf: "\<not> do_fsync \<longrightarrow> no_fsync (t01 @ t12 @ [Sys_close (fd_path d)])"
        using t01(2) t12(2) by simp
      have only: "\<forall>p. Sys_fsync p \<in> set (t01 @ t12 @ [Sys_close (fd_path d)]) \<longrightarrow> p = fd_path d"
        using t01(2) t12(3) by (auto simp: no_fsync_def)
      have ot: "only_touches (fd_path d) w (snd (sys_close k w2 d1))"
        using f01 by (simp add: only_touches_def f2)
      show ?thesis
      proof (cases "close_fault k")
        case None
        with r l All_written fs have rw: "r = Success" "w' = snd (sys_close k w2 d1)"
          by (auto simp: write_to_file_def w0_def[symmetric] Let_def sys_close_def)
        have "files w' (fd_path d) = files w1 (fd_path d)" by (simp add: rw f2)
        with content All_written rw(1) tr nf only ot show ?thesis
          unfolding rw(2) by (intro conjI; (blast | simp))
      next
        case (Some ec)
        with r l All_written fs
        have rw: "r = Failed (GError Failed_close dest ec)" "w' = snd (sys_close k w2 d1)"
          by (auto simp: write_to_file_def w0_def[symmetric] Let_def sys_close_def)
        from tr nf only ot Some show ?thesis
          unfolding rw by (intro conjI) blast+
      qed
    qed
  qed
qed

lemma rename_file_cases:
  assumes "rename_file k w old new do_fsync = (r, w')"
  shows "(\<exists>t. trace w' = trace w @ t \<and> (\<not> do_fsync \<longrightarrow> no_fsync t)
            \<and> (\<forall>p. Sys_fsync p \<in> set t \<longrightarrow> p = g_path_get_dirname new \<and> r = None))
       \<and> (case r of
             Some err \<Rightarrow> files w' = files w
               \<and> (\<exists>e. err = GError Failed_rename old e \<and> (rename_fault k = Some e \<or> e = ENOENT))
           | None \<Rightarrow> \<exists>nd. files w old = Some nd \<and> files w' = (files w)(new \<mapsto> nd, old := None))"
proof -
  obtain rr w1 where s: "sys_rename k w old new = (rr, w1)" by force
  have t1: "trace w1 = trace w @ [Sys_rename old new]"
    using s by (auto simp: sys_rename_def Let_def split: option.splits)
  show ?thesis
  proof (cases rr)
    case (Some e)
    with s assms have rw: "r = Some (GError Failed_rename old e)" "w' = w1"
      by (auto simp: rename_file_def)
    from s Some have "files w1 = files w" "rename_fault k = Some e \<or> e = ENOENT"
      by (auto simp: sys_rename_def Let_def split: option.splits)
    with t1 show ?thesis by (simp add: rw)
  next
    case None
    with s have f1: "\<exists>nd. files w old = Some nd \<and> files w1 = (files w)(new \<mapsto> nd, old := None)"
      by (auto simp: sys_rename_def Let_def split: option.splits)
    show ?thesis
    proof (cases do_fsync)
      case False
      with s None assms have rw: "r = None" "w' = w1" by (auto simp: rename_file_def)
      with t1 f1 False show ?thesis by simp
    next
      case True
      let ?dir = "g_path_get_dirname new"
      obtain ro w2 where o: "sys_open_dir k w1 ?dir = (ro, w2)" by force
      then have w2: "trace w2 = trace w1 @ [Sys_open ?dir]" "files w2 = files w1"
        by (auto simp: sys_open_dir_def Let_def split: option.splits)
      show ?thesis
      proof (cases ro)
        case (Inl e)
        with s None assms True o have rw: "r = None" "w' = w2"
          by (auto simp: rename_file_def Let_def)
        with t1 f1 w2 show ?thesis by simp
      next
        case (Inr dfd)
        with o have p: "fd_path dfd = ?dir"
          by (auto simp: sys_open_dir_def Let_def split: option.splits)
        from s None assms True o Inr
        have rw: "r = None" "w' = snd (sys_close k (snd (sys_fsync k w2 dfd)) dfd)"
          by (auto simp: rename_file_def Let_def split: prod.splits)
        have "trace w' = trace w @ [Sys_rename old new, Sys_open ?dir, Sys_fsync ?dir, Sys_close ?dir]"
          by (simp add: rw t1 w2 p)
        moreover have "files w' = files w1" by (simp add: rw w2)
        ultimately show ?thesis using f1 rw(1) True by auto
      qed
    qed
  qed
qed

lemma fd_should_be_fsynced_cases:
  assumes "fd_should_be_fsynced k w d f flags = (b, w')"
  shows "files w' = files w \<and> (\<exists>t. trace w' = trace w @ t \<and> no_fsync t)
       \<and> b = ((G_FILE_SET_CONTENTS_CONSISTENT \<in> flags \<or> G_FILE_SET_CONTENTS_DURABLE \<in> flags)
              \<and> (G_FILE_SET_CONTENTS_ONLY_EXISTING \<in> flags \<longrightarrow> target_at_risk k w f))"
proof (cases "(G_FILE_SET_CONTENTS_CONSISTENT \<in> flags \<or> G_FILE_SET_CONTENTS_DURABLE \<in> flags)
         \<and> G_FILE_SET_CONTENTS_ONLY_EXISTING \<in> flags")
  case False
  with assms show ?thesis by (auto simp: fd_should_be_fsynced_def)
next
  case True
  obtain rl w1 where l: "sys_lstat k w f = (rl, w1)" by force
  then have w1: "files w1 = files w" "trace w1 = trace w @ [Sys_lstat f]"
    using sys_lstat_simps[of k w f] by simp_all
  have b: "(case rl of Inr sz \<Rightarrow> sz > 0 | Inl e \<Rightarrow> e \<noteq> ENOENT) = target_at_risk k w f"
    using l by (auto simp: sys_lstat_def target_at_risk_def Let_def
        split: option.splits node.splits)
  from assms True l have "w' = w1" "b = (case rl of Inr sz \<Rightarrow> sz > 0 | Inl e \<Rightarrow> e \<noteq> ENOENT)"
    by (auto simp: fd_should_be_fsynced_def split: sum.splits if_splits)
  with w1 b True show ?thesis by simp
qed

lemma unlink_restores:
  assumes "only_touches tmp w wx" "files w tmp = None"
  shows "files (sys_unlink wx tmp) = files w"
  using assms by (auto simp: only_touches_def fun_eq_iff)

lemma chmod_step_cases:
  assumes "(case sys_stat k w filename of
              (Inr st_mode, w) \<Rightarrow> sys_fchmod k w d st_mode
            | (Inl e, w) \<Rightarrow> (None, w)) = (cr, w')"
  shows "only_touches (fd_path d) w w' \<and> (\<exists>t. trace w' = trace w @ t \<and> no_fsync t)
       \<and> (\<forall>e. cr = Some e \<longrightarrow> fchmod_fault k = Some e)
       \<and> (\<forall>m. files w (fd_path d) = Some (Regular [] m)
              \<longrightarrow> (\<exists>m'. files w' (fd_path d) = Some (Regular [] m')))"
proof -
  obtain rs w1 where s: "sys_stat k w filename = (rs, w1)" by force
  then have w1: "files w1 = files w" "trace w1 = trace w @ [Sys_stat filename]"
    using sys_stat_simps[of k w filename] by simp_all
  show ?thesis
  proof (cases rs)
    case (Inl e)
    with assms s have "cr = None" "w' = w1" by auto
    with w1 show ?thesis by (simp add: only_touches_def)
  next
    case (Inr st_mode)
    with assms s have c: "sys_fchmod k w1 d st_mode = (cr, w')" by simp
    then have "trace w' = trace w @ [Sys_stat filename, Sys_fchmod (fd_path d)]"
      and "cr = fchmod_fault k" and "only_touches (fd_path d) w w'"
      using sys_fchmod_simps(1,2,5)[where k=k and w=w1 and d=d and m=st_mode] w1
      by (simp_all add: only_touches_def)
    moreover have "files w (fd_path d) = Some (Regular [] m)
        \<Longrightarrow> \<exists>m'. files w' (fd_path d) = Some (Regular [] m')" for m
      using c w1 by (auto simp: sys_fchmod_def Let_def files_update_node set_mode_def
          split: option.splits)
    ultimately show ?thesis by auto
  qed
qed

lemma length_back_over_separators: "length (back_over_separators cs) \<le> length cs"
  by (induction cs) auto

lemma length_g_path_get_dirname: "length (g_path_get_dirname f) \<le> max 1 (length f)"
proof (cases "CHR ''/'' \<in> set f")
  case False
  then show ?thesis by (simp add: g_path_get_dirname_def)
next
  case True
  have "length (back_over_separators (dropWhile (\<lambda>c. c \<noteq> CHR ''/'') (rev f)))
      \<le> length (dropWhile (\<lambda>c. c \<noteq> CHR ''/'') (rev f))"
    by (rule length_back_over_separators)
  also have "\<dots> \<le> length (rev f)" by (rule length_dropWhile_le)
  finally show ?thesis using True by (simp add: g_path_get_dirname_def)
qed

lemma target_at_risk_cong:
  "files w1 filename = files w filename \<Longrightarrow> target_at_risk k w1 filename = target_at_risk k w filename"
  by (simp add: target_at_risk_def split: option.splits)

lemma consistent_cases:
  assumes run: "set_contents_consistent k w filename contents n flags mode = Some (r, w')"
  shows "\<exists>t. trace w' = trace w @ t
      \<and> (\<forall>p. Sys_fsync p \<in> set t \<longrightarrow> fsync_wanted k w filename flags)
      \<and> (Sys_fsync (g_path_get_dirname filename) \<in> set t \<longrightarrow> r = Success)
      \<and> (\<forall>err. r = Failed err \<longrightarrow> files w' = files w
            \<and> ((\<exists>tmp e. err = GError Failed_to_create tmp e)
               \<or> (\<exists>tmp t'. t = t' @ [Sys_unlink tmp] \<and> files w tmp = None
                     \<and> tmp_failure k tmp err)))
      \<and> r \<noteq> Rejected
      \<and> (r = Success \<longrightarrow> n \<le> length contents \<longrightarrow> n \<le> G_MAXSSIZE \<longrightarrow>
            (\<exists>m. files w' = (files w)(filename \<mapsto> Regular (take n contents) m)))"
proof -
  obtain rm tmp w1 where mk: "g_mkstemp_full k w (filename @ ''.XXXXXX'') mode = (rm, tmp, w1)"
    by (metis prod_cases3)
  note mc = g_mkstemp_full_cases[OF mk]
  then obtain t1 where t1: "trace w1 = trace w @ t1" "no_fsync t1" by auto
  show ?thesis
  proof (cases rm)
    case (Inl e)
    with run mk have "r = Failed (GError Failed_to_create tmp e)" "w' = w1"
      by (auto simp: set_contents_consistent_def Let_def)
    moreover from mc Inl have "files w1 = files w" by simp
    ultimately show ?thesis using t1 by (auto simp: no_fsync_def)
  next
    case (Inr d)
    with mc have d: "fd_path d = tmp" "fd_off d = 0" and fresh: "files w tmp = None"
      and f1: "files w1 = (files w)(tmp \<mapsto> Regular [] mode)"
      and ltmp: "length tmp = length filename + 7"
      by simp_all
    have ne: "tmp \<noteq> filename" using ltmp by auto
    have ned: "tmp \<noteq> g_path_get_dirname filename"
      using ltmp length_g_path_get_dirname[of filename] by auto
    have o1: "only_touches tmp w w1" by (simp add: only_touches_def f1)
    obtain cr w2 where ch: "(case sys_stat k w1 filename of
              (Inr st_mode, w) \<Rightarrow> sys_fchmod k w d st_mode
            | (Inl e, w) \<Rightarrow> (None, w)) = (cr, w2)" by force
    note cc = chmod_step_cases[OF ch, unfolded d]
    then obtain t2 where t2: "trace w2 = trace w1 @ t2" "no_fsync t2" by auto
    from cc have o2: "only_touches tmp w w2" using o1 only_touches_trans by blast
    from cc f1 obtain m2 where m2: "files w2 tmp = Some (Regular [] m2)" by auto
    show ?thesis
    proof (cases cr)
      case (Some e)
      with run mk Inr ch
      have rw: "r = Failed (GError Failed_to_set_permissions tmp e)" "w' = sys_unlink w2 tmp"
        by (auto simp: set_contents_consistent_def Let_def)
      have "files w' = files w" unfolding rw by (rule unlink_restores[OF o2 fresh])
      moreover have "trace w' = trace w @ ((t1 @ t2) @ [Sys_unlink tmp])"
        by (simp add: rw t1 t2)
      moreover have "tmp_failure k tmp (GError Failed_to_set_permissions tmp e)"
        using cc Some by (simp add: tmp_failure_def)
      moreover have "no_fsync ((t1 @ t2) @ [Sys_unlink tmp])" using t1 t2 by simp
      ultimately show ?thesis using fresh rw(1) unfolding no_fsync_def by (intro exI conjI) blast+
    next
      case None
      obtain do_fsync w3 where fd: "fd_should_be_fsynced k w2 d filename flags = (do_fsync, w3)"
        by force
      note fc = fd_should_be_fsynced_cases[OF fd]
      then obtain t3 where t3: "trace w3 = trace w2 @ t3" "no_fsync t3" by auto
      have f3: "files w3 = files w2" using fc by simp
      have "files w2 filename = files w filename" using o2 ne by (simp add: only_touches_def)
      then have dof: "do_fsync = fsync_wanted k w filename flags"
        using fc target_at_risk_cong[of w2 filename w k] by (simp add: fsync_wanted_def)
      have o3: "only_touches tmp w w3" using o2 f3 by (simp add: only_touches_def)
      from run mk Inr ch None fd obtain wr w4 where
        wt: "write_to_file k w3 contents n d tmp do_fsync = Some (wr, w4)"
        by (auto simp: set_contents_consistent_def Let_def split: option.splits)
      note wc = write_to_file_cases[OF wt, unfolded d]
      then obtain t4 where t4: "trace w4 = trace w3 @ t4" "\<not> do_fsync \<longrightarrow> no_fsync t4"
        "\<forall>p. Sys_fsync p \<in> set t4 \<longrightarrow> p = tmp" by auto
      from wc have o4: "only_touches tmp w w4" using o3 only_touches_trans by blast
      have tr4: "trace w4 = trace w @ (t1 @ t2 @ t3 @ t4)" by (simp add: t1 t2 t3 t4)
      have fs4: "\<forall>p. Sys_fsync p \<in> set (t1 @ t2 @ t3 @ t4) \<longrightarrow> do_fsync \<and> p = tmp"
        using t1(2) t2(2) t3(2) t4(2,3) by (auto simp: no_fsync_def)
      show ?thesis
      proof (cases wr)
        case Rejected
        with wc show ?thesis by simp
      next
        case Aborted
        with run mk Inr ch None fd wt have rw: "r = Aborted" "w' = w4"
          by (auto simp: set_contents_consistent_def Let_def)
        show ?thesis using tr4 fs4 ned dof unfolding rw by (intro exI conjI) auto
      next
        case (Failed err)
        with run mk Inr ch None fd wt have rw: "r = Failed err" "w' = sys_unlink w4 tmp"
          by (auto simp: set_contents_consistent_def Let_def)
        have "files w' = files w" unfolding rw by (rule unlink_restores[OF o4 fresh])
        moreover have "trace w' = trace w @ ((t1 @ t2 @ t3 @ t4) @ [Sys_unlink tmp])"
          by (simp add: rw tr4)
        moreover have "tmp_failure k tmp err"
          using wc Failed unfolding tmp_failure_def by blast
        moreover have "\<forall>p. Sys_fsync p \<in> set ((t1 @ t2 @ t3 @ t4) @ [Sys_unlink tmp])
            \<longrightarrow> do_fsync \<and> p = tmp"
          using fs4 by auto
        ultimately show ?thesis using fresh rw(1) ned dof by (intro exI conjI) blast+
      next
        case Success
        obtain rr w5 where rn: "rename_file k w4 tmp filename do_fsync = (rr, w5)" by force
        note rc = rename_file_cases[OF rn]
        then obtain t5 where t5: "trace w5 = trace w4 @ t5" "\<not> do_fsync \<longrightarrow> no_fsync t5"
          "\<forall>p. Sys_fsync p \<in> set t5 \<longrightarrow> p = g_path_get_dirname filename \<and> rr = None" by auto
        have tr5: "trace w5 = trace w @ (t1 @ t2 @ t3 @ t4 @ t5)" by (simp add: tr4 t5)
        have fs5: "\<forall>p. Sys_fsync p \<in> set (t1 @ t2 @ t3 @ t4 @ t5) \<longrightarrow> do_fsync"
          using fs4 t5(2) by (auto simp: no_fsync_def)
        have fd5: "Sys_fsync (g_path_get_dirname filename) \<in> set (t1 @ t2 @ t3 @ t4 @ t5)
            \<longrightarrow> rr = None"
          using fs4 t5(3) ned by auto
        show ?thesis
        proof (cases rr)
          case (Some rerr)
          with run mk Inr ch None fd wt Success rn
          have rw: "r = Failed rerr" "w' = sys_unlink w5 tmp"
            by (auto simp: set_contents_consistent_def Let_def)
          from rc Some have f5: "files w5 = files w4"
            and re: "\<exists>e. rerr = GError Failed_rename tmp e \<and> (rename_fault k = Some e \<or> e = ENOENT)"
            by simp_all
          have o5: "only_touches tmp w w5" using o4 f5 by (simp add: only_touches_def)
          have "files w' = files w" unfolding rw by (rule unlink_restores[OF o5 fresh])
          moreover have "trace w' = trace w @ ((t1 @ t2 @ t3 @ t4 @ t5) @ [Sys_unlink tmp])"
            by (simp add: rw tr5)
          moreover have "tmp_failure k tmp rerr" using re unfolding tmp_failure_def by blast
          moreover have "\<forall>p. Sys_fsync p \<in> set ((t1 @ t2 @ t3 @ t4 @ t5) @ [Sys_unlink tmp])
              \<longrightarrow> do_fsync"
            using fs5 by auto
          moreover have "Sys_fsync (g_path_get_dirname filename)
              \<notin> set ((t1 @ t2 @ t3 @ t4 @ t5) @ [Sys_unlink tmp])"
            using fd5 Some by auto
          ultimately show ?thesis using fresh rw(1) dof by (intro exI conjI) blast+
        next
          case None
          with run mk Inr ch \<open>cr = None\<close> fd wt Success rn
          have rw: "r = Success" "w' = w5"
            by (auto simp: set_contents_consistent_def Let_def)
          from rc None obtain nd where nd: "files w4 tmp = Some nd"
            "files w5 = (files w4)(filename \<mapsto> nd, tmp := None)" by auto
          have "files w3 tmp = Some (Regular [] m2)" using m2 f3 by simp
          with wc Success
          have c4: "n \<le> length contents \<longrightarrow> n \<le> G_MAXSSIZE \<longrightarrow>
              files w4 tmp = Some (Regular (take n contents) m2)"
            using d by simp
          have "n \<le> length contents \<longrightarrow> n \<le> G_MAXSSIZE \<longrightarrow>
              files w5 = (files w)(filename \<mapsto> Regular (take n contents) m2)"
          proof (intro impI)
            assume "n \<le> length contents" "n \<le> G_MAXSSIZE"
            with c4 nd have ndv: "nd = Regular (take n contents) m2" by simp
            show "files w5 = (files w)(filename \<mapsto> Regular (take n contents) m2)"
              using o4 fresh ne unfolding nd(2) ndv
              by (auto simp: fun_eq_iff only_touches_def)
          qed
          then show ?thesis using tr5 fs5 dof unfolding rw by (intro exI conjI) auto
        qed
      qed
    qed
  qed
qed

lemma truncate_file_cases:
  "truncate_file script w d n dest = Some (r, w') \<Longrightarrow>
     only_touches (fd_path d) w w'
     \<and> (\<exists>t. trace w' = trace w @ Sys_ftruncate (fd_path d) # t)
     \<and> (r = None \<longrightarrow> (\<forall>c m. files w (fd_path d) = Some (Regular c m) \<longrightarrow>
            files w' (fd_path d) = Some (Regular (take n (c @ replicate (n - length c) 0)) m)))"
proof (induction script arbitrary: w)
  case Nil
  then show ?case by simp
next
  case (Cons a script)
  let ?w0 = "called (Sys_ftruncate (fd_path d)) w"
  show ?case
  proof (cases a)
    case None
    with Cons.prems have "r = None" "w' = sys_ftruncate_ok ?w0 d n" by (auto simp: Let_def)
    then show ?thesis
      by (auto simp: sys_ftruncate_ok_def files_update_node only_touches_def set_bytes_def)
  next
    case (Some e)
    show ?thesis
    proof (cases "e = EINTR")
      case False
      with Cons.prems Some have "r = Some (GError Failed_ftruncate dest e)" "w' = ?w0"
        by (auto simp: Let_def)
      then show ?thesis by (auto simp: only_touches_def)
    next
      case True
      with Cons.prems Some have rec: "truncate_file script ?w0 d n dest = Some (r, w')"
        by (simp add: Let_def)
      from Cons.IH[OF rec] obtain t where
        j: "trace w' = trace ?w0 @ Sys_ftruncate (fd_path d) # t"
        and o: "only_touches (fd_path d) ?w0 w'"
        and c: "r = None \<longrightarrow> (\<forall>c m. files ?w0 (fd_path d) = Some (Regular c m) \<longrightarrow>
            files w' (fd_path d) = Some (Regular (take n (c @ replicate (n - length c) 0)) m))"
        by auto
      have "trace w' = trace w @ Sys_ftruncate (fd_path d) # (Sys_ftruncate (fd_path d) # t)"
        using j by simp
      then show ?thesis using o c by (auto simp: only_touches_def)
    qed
  qed
qed

lemma sys_open_nofollow_cases:
  assumes "sys_open_nofollow k w path mode = (r, w')"
  shows "trace w' = trace w @ [Sys_open path] \<and> only_touches path w w'
       \<and> (case r of
             Inl e \<Rightarrow> files w' = files w
               \<and> (e = ELOOP \<longrightarrow> (\<exists>t. files w path = Some (Symlink t)) \<or> open_fault k path = Some ELOOP)
           | Inr d \<Rightarrow> d = \<lparr>fd_path = path, fd_off = 0\<rparr> \<and> (\<exists>c m. files w' path = Some (Regular c m)))"
  using assms
  by (auto simp: sys_open_nofollow_def Let_def only_touches_def split: option.splits node.splits)

lemma direct_cases:
  assumes run: "set_contents_direct k w filename contents n flags mode = Inr (Some (r, w'))"
  shows "only_touches filename w w'
       \<and> (\<exists>t1 t2. trace w' = trace w @ t1 @ Sys_ftruncate filename # t2
             \<and> (\<forall>p. Sys_write p \<notin> set t1))
       \<and> r \<noteq> Rejected
       \<and> (r = Success \<longrightarrow> n \<le> length contents \<longrightarrow> n \<le> G_MAXSSIZE \<longrightarrow>
            (\<exists>m. files w' filename = Some (Regular (take n contents) m)))"
proof -
  obtain ro w1 where op: "sys_open_nofollow k w filename mode = (ro, w1)" by force
  with run obtain d where ro: "ro = Inr d" by (cases ro) (auto simp: set_contents_direct_def)
  from sys_open_nofollow_cases[OF op] ro
  have d: "fd_path d = filename" "fd_off d = 0" and t1: "trace w1 = trace w @ [Sys_open filename]"
    and o1: "only_touches filename w w1"
    and c1: "\<exists>c m. files w1 filename = Some (Regular c m)"
    by auto
  obtain do_fsync w2 where fd: "fd_should_be_fsynced k w1 d filename flags = (do_fsync, w2)"
    by force
  obtain t2 where f2: "files w2 = files w1" and t2: "trace w2 = trace w1 @ t2"
    "\<forall>p. Sys_write p \<notin> set t2"
  proof -
    have "files w2 = files w1 \<and> (\<exists>t. trace w2 = trace w1 @ t \<and> (\<forall>p. Sys_write p \<notin> set t))"
      using fd by (auto simp: fd_should_be_fsynced_def sys_lstat_def Let_def
          split: if_splits option.splits node.splits sum.splits)
    then show ?thesis using that by blast
  qed
  from run op ro fd obtain rt w3 where
    tf: "truncate_file (ftruncate_script k) w2 d 0 filename = Some (rt, w3)"
    by (auto simp: set_contents_direct_def split: option.splits)
  from truncate_file_cases[OF tf] d obtain t3 where
    o3: "only_touches filename w2 w3"
    and t3: "trace w3 = trace w2 @ Sys_ftruncate filename # t3"
    and c3: "rt = None \<longrightarrow> (\<forall>c m. files w2 filename = Some (Regular c m) \<longrightarrow>
            files w3 filename = Some (Regular [] m))"
    by auto
  have o13: "only_touches filename w w3"
    using o1 o3 f2 by (simp add: only_touches_def)
  have tr3: "trace w3 = trace w @ (Sys_open filename # t2) @ Sys_ftruncate filename # t3"
    by (simp add: t1 t2 t3)
  have nw: "\<forall>p. Sys_write p \<notin> set (Sys_open filename # t2)" using t2(2) by simp
  show ?thesis
  proof (cases rt)
    case (Some err)
    with run op ro fd tf have "r = Failed err" "w' = w3"
      by (auto simp: set_contents_direct_def)
    then have "\<exists>t1 t2. trace w' = trace w @ t1 @ Sys_ftruncate filename # t2
             \<and> (\<forall>p. Sys_write p \<notin> set t1)"
      using tr3 nw by blast
    with o13 \<open>r = Failed err\<close> \<open>w' = w3\<close> show ?thesis by simp
  next
    case None
    with run op ro fd tf have wt: "write_to_file k w3 contents n d filename do_fsync = Some (r, w')"
      by (auto simp: set_contents_direct_def)
    note wc = write_to_file_cases[OF wt, unfolded d]
    then obtain t4 where t4: "trace w' = trace w3 @ t4" by auto
    from c1 f2 c3 None obtain m where "files w3 filename = Some (Regular [] m)" by auto
    with wc d have "r = Success \<longrightarrow> n \<le> length contents \<longrightarrow> n \<le> G_MAXSSIZE \<longrightarrow>
        files w' filename = Some (Regular (take n contents) m)"
      by simp
    moreover have "only_touches filename w w'" using o13 wc only_touches_trans by blast
    moreover have "trace w' = trace w @ (Sys_open filename # t2)
      @ Sys_ftruncate filename # (t3 @ t4)"
      by (simp add: tr3 t4)
    then have "\<exists>t1 t2. trace w' = trace w @ t1 @ Sys_ftruncate filename # t2
             \<and> (\<forall>p. Sys_write p \<notin> set t1)"
      using nw by blast
    ultimately show ?thesis using wc by blast
  qed
qed

lemma take_strlen: "take (strlen buf) buf = takeWhile (\<lambda>b. b \<noteq> 0) buf"
  by (simp only: strlen_def takeWhile_eq_take[symmetric])

lemma strlen_le: "strlen buf \<le> length buf"
  by (simp add: strlen_def length_takeWhile_le)

section \<open>GArray: growth, overflow policy and capacity invariant\<close>

text \<open>
  Claim C5. Take a growth request within the overflow bound. When \<open>want_len = len + n +
  (1 if zero-terminated)\<close> does not exceed the capacity, \<open>g_array_maybe_expand\<close> returns
  the array unchanged. When it does, the block is reallocated to exactly \<open>max (2 ^ k) 16\<close>
  bytes, where \<open>2 ^ k\<close> is the least power of two at or above \<open>want_len * elt_size\<close>:
  the new block is the old bytes followed by indeterminate ones (zero bytes over the newly
  wanted elements in gc-friendly mode), so the \<open>len\<close> stored elements are kept; the new
  capacity is \<open>MIN (size / elt_size, G_MAXUINT)\<close>, which covers \<open>want_len\<close>; and only
  \<open>data\<close> and \<open>elt_capacity\<close> change.
\<close>

theorem g_array_maybe_expand_growth:
  assumes "elt_size a \<noteq> 0" and "unat (len a) + unat n \<le> max_elems a"
  shows "(want_len_of a n \<le> unat (elt_capacity a) \<longrightarrow> g_array_maybe_expand gc a n = Inr a)
       \<and> (unat (elt_capacity a) < want_len_of a n \<longrightarrow>
            (\<exists>k c. g_array_maybe_expand gc a n
                      = Inr (a\<lparr>data := Some (grown_block gc a n (max (2 ^ k) 16)),
                               elt_capacity := c\<rparr>)
               \<and> unat (elt_size a) * want_len_of a n \<le> 2 ^ k
               \<and> (\<forall>j<k. 2 ^ j < unat (elt_size a) * want_len_of a n)
               \<and> length (grown_block gc a n (max (2 ^ k) 16)) = max (2 ^ k) 16
               \<and> unat c = min (max (2 ^ k) 16 div unat (elt_size a)) 4294967295
               \<and> want_len_of a n \<le> unat c
               \<and> (unat (len a) \<le> unat (elt_capacity a) \<longrightarrow>
                    unat (elt_size a) * unat (len a) \<le> length (old_block a) \<longrightarrow>
                    take (unat (elt_size a) * unat (len a))
                         (grown_block gc a n (max (2 ^ k) 16))
                      = take (unat (elt_size a) * unat (len a)) (old_block a))))"
proof (intro conjI impI)
  assume "want_len_of a n \<le> unat (elt_capacity a)"
  then show "g_array_maybe_expand gc a n = Inr a"
    by (rule g_array_maybe_expand_noop[OF assms])
next
  assume short: "unat (elt_capacity a) < want_len_of a n"
  let ?es = "unat (elt_size a)" and ?want = "want_len_of a n"
  from g_array_maybe_expand_grow_exact[OF assms short, of gc]
  obtain k c where g: "?es * ?want \<le> 2 ^ k" "\<forall>j<k. 2 ^ j < ?es * ?want"
    "unat c = min (max (2 ^ k) 16 div ?es) 4294967295"
    "g_array_maybe_expand gc a n
       = Inr (a\<lparr>data := Some (grown_block gc a n (max (2 ^ k) 16)), elt_capacity := c\<rparr>)"
    by (elim exE conjE) (rule that)
  let ?W = "max (2 ^ k) (16::nat)"
  have pos: "0 < ?es" using assms(1) by (simp add: unat_gt_0)
  have len: "length (grown_block gc a n ?W) = ?W"
    by (simp add: grown_block_def Let_def)
  have "?want * ?es \<le> ?W" using g(1) by (simp add: mult.commute)
  then have "?want \<le> ?W div ?es" using pos by (simp add: less_eq_div_iff_mult_less_eq)
  moreover have "?want \<le> 4294967295"
    using max_elems_bounds(1)[OF assms(1)] assms(2) by (simp add: want_len_of_def)
  ultimately have cap: "?want \<le> unat c" using g(3) by simp
  have "?es * unat (len a) \<le> ?es * ?want"
    by (rule mult_le_mono2) (simp add: want_len_of_def)
  also have "\<dots> \<le> 2 ^ k" by (rule g(1))
  also have "\<dots> \<le> ?W" by simp
  finally have fitsW: "?es * unat (len a) \<le> ?W" .
  have keep: "unat (len a) \<le> unat (elt_capacity a) \<longrightarrow>
      ?es * unat (len a) \<le> length (old_block a) \<longrightarrow>
      take (?es * unat (len a)) (grown_block gc a n ?W)
        = take (?es * unat (len a)) (old_block a)"
  proof (intro impI)
    assume a1: "unat (len a) \<le> unat (elt_capacity a)"
      and a2: "?es * unat (len a) \<le> length (old_block a)"
    show "take (?es * unat (len a)) (grown_block gc a n ?W)
        = take (?es * unat (len a)) (old_block a)"
      by (rule grown_block_keeps_elements[OF a1 a2 fitsW])
  qed
  show "\<exists>k c. g_array_maybe_expand gc a n
                      = Inr (a\<lparr>data := Some (grown_block gc a n (max (2 ^ k) 16)),
                               elt_capacity := c\<rparr>)
               \<and> ?es * ?want \<le> 2 ^ k
               \<and> (\<forall>j<k. 2 ^ j < ?es * ?want)
               \<and> length (grown_block gc a n (max (2 ^ k) 16)) = max (2 ^ k) 16
               \<and> unat c = min (max (2 ^ k) 16 div ?es) 4294967295
               \<and> ?want \<le> unat c
               \<and> (unat (len a) \<le> unat (elt_capacity a) \<longrightarrow>
                    ?es * unat (len a) \<le> length (old_block a) \<longrightarrow>
                    take (?es * unat (len a)) (grown_block gc a n (max (2 ^ k) 16))
                      = take (?es * unat (len a)) (old_block a))"
  proof (rule exI[of _ k], rule exI[of _ c], intro conjI)
    show "g_array_maybe_expand gc a n
        = Inr (a\<lparr>data := Some (grown_block gc a n (max (2 ^ k) 16)), elt_capacity := c\<rparr>)"
      by (rule g(4))
    show "?es * ?want \<le> 2 ^ k" by (rule g(1))
    show "\<forall>j<k. 2 ^ j < ?es * ?want" by (rule g(2))
    show "length (grown_block gc a n (max (2 ^ k) 16)) = max (2 ^ k) 16" by (rule len)
    show "unat c = min (max (2 ^ k) 16 div ?es) 4294967295" by (rule g(3))
    show "?want \<le> unat c" by (rule cap)
    show "unat (len a) \<le> unat (elt_capacity a) \<longrightarrow>
        ?es * unat (len a) \<le> length (old_block a) \<longrightarrow>
        take (?es * unat (len a)) (grown_block gc a n (max (2 ^ k) 16))
          = take (?es * unat (len a)) (old_block a)"
      by (rule keep)
  qed
qed

theorem g_array_maybe_expand_growth_witness:
  "g_array_maybe_expand False pairs_array 0 = Inr pairs_array
   \<and> g_array_maybe_expand False pairs_array 1
       = Inr (pairs_array\<lparr>data := Some ([Some 2, Some 1, Some 1, Some 2, Some 2, Some 3,
                                       Some 1, Some 4] @ replicate 8 None),
                          elt_capacity := 8\<rparr>)
   \<and> g_array_maybe_expand True pairs_array 1
       = Inr (pairs_array\<lparr>data := Some ([Some 2, Some 1, Some 1, Some 2, Some 2, Some 3,
                                       Some 1, Some 4] @ replicate 2 (Some 0)
                                         @ replicate 6 None),
                          elt_capacity := 8\<rparr>)"
proof -
  have es: "elt_size pairs_array \<noteq> 0" by (simp add: pairs_array_def)
  have fits0: "unat (len pairs_array) + unat (0 :: guint) \<le> max_elems pairs_array"
    and fits1: "unat (len pairs_array) + unat (1 :: guint) \<le> max_elems pairs_array"
    by (simp_all add: pairs_array_def max_elems_def)
  have w0: "want_len_of pairs_array 0 = 4" and w1: "want_len_of pairs_array 1 = 5"
    by (simp_all add: want_len_of_def zt_slot_def pairs_array_def)
  have cap: "unat (elt_capacity pairs_array) = 4" and esz: "unat (elt_size pairs_array) = 2"
    by (simp_all add: pairs_array_def)
  from g_array_maybe_expand_growth[OF es fits0, of False]
  have noop: "g_array_maybe_expand False pairs_array 0 = Inr pairs_array"
    unfolding w0 cap by simp
  have grow: "g_array_maybe_expand gc pairs_array 1
       = Inr (pairs_array\<lparr>data := Some (grown_block gc pairs_array 1 16),
                          elt_capacity := 8\<rparr>)" for gc
  proof -
    have lt: "(4::nat) < 5" by simp
    from g_array_maybe_expand_growth[OF es fits1, of gc, unfolded w1 cap esz,
        THEN conjunct2, THEN mp, OF lt]
    obtain k c where g: "g_array_maybe_expand gc pairs_array 1
         = Inr (pairs_array\<lparr>data := Some (grown_block gc pairs_array 1 (max (2 ^ k) 16)),
                            elt_capacity := c\<rparr>)"
      "2 * 5 \<le> (2::nat) ^ k" "\<forall>j<k. 2 ^ j < 2 * (5::nat)"
      "unat c = min (max (2 ^ k) 16 div 2) 4294967295"
      by (elim exE conjE) (rule that)
    have k: "k = 4"
      using least_pow2_unique[of "2 * 5" k 4] g(2,3) by simp
    have "unat c = 8" using g(4) unfolding k by simp
    then have "unat c = unat (8 :: guint)" by simp
    then have c: "c = 8" by (rule unsigned_word_eqI)
    from g(1) show ?thesis unfolding k c by simp
  qed
  have b: "grown_block False pairs_array 1 16
      = [Some 2, Some 1, Some 1, Some 2, Some 2, Some 3, Some 1, Some 4] @ replicate 8 None"
    by (simp add: grown_block_def old_block_def pairs_array_def)
  have ob: "old_block pairs_array
      = [Some 2, Some 1, Some 1, Some 2, Some 2, Some 3, Some 1, Some 4]"
    by (simp add: old_block_def pairs_array_def)
  have bt: "grown_block True pairs_array 1 16
      = [Some 2, Some 1, Some 1, Some 2, Some 2, Some 3, Some 1, Some 4]
          @ replicate 2 (Some 0) @ replicate 6 None"
    unfolding grown_block_def ob esz cap w1 by (simp add: blk_write_def Let_def)
  from noop grow[of False] grow[of True] show ?thesis unfolding b bt by simp
qed

text \<open>
  Claim C6. With \<open>max_len = MIN (G_MAXSIZE / 2 / elt_size, G_MAXUINT) - zero_terminated\<close>,
  a request of \<open>n\<close> elements with \<open>max_len - len < n\<close> ends in the fatal \<open>g_error\<close>;
  under the negated condition the fatal branch is not taken, and for an array whose length is
  within \<open>max_len\<close> (every array built by \<open>g_array_sized_new\<close> and grown through this
  function) the call returns normally. For such arrays the test in \<open>guint\<close> arithmetic is
  the test on the natural numbers.
\<close>

theorem g_array_maybe_expand_overflow_policy:
  assumes "elt_size a \<noteq> 0"
  shows "unat (array_max_len a) = max_elems a
       \<and> (array_max_len a - len a < n \<longrightarrow> g_array_maybe_expand gc a n = Inl Fatal_overflow)
       \<and> (\<not> array_max_len a - len a < n \<longrightarrow> g_array_maybe_expand gc a n \<noteq> Inl Fatal_overflow)
       \<and> (unat (len a) \<le> max_elems a \<longrightarrow>
            (array_max_len a - len a < n \<longleftrightarrow> max_elems a - unat (len a) < unat n)
            \<and> (\<not> array_max_len a - len a < n \<longrightarrow> (\<exists>a'. g_array_maybe_expand gc a n = Inr a')))"
proof (intro conjI impI)
  show "unat (array_max_len a) = max_elems a" by (rule unat_array_max_len[OF assms])
next
  assume "array_max_len a - len a < n"
  with assms show "g_array_maybe_expand gc a n = Inl Fatal_overflow"
    by (simp add: g_array_maybe_expand_def Let_def)
next
  assume "\<not> array_max_len a - len a < n"
  with assms show "g_array_maybe_expand gc a n \<noteq> Inl Fatal_overflow"
    by (simp add: g_array_maybe_expand_def Let_def)
next
  assume L: "unat (len a) \<le> max_elems a"
  show "array_max_len a - len a < n \<longleftrightarrow> max_elems a - unat (len a) < unat n"
    using not_fatal_iff[OF assms L, of n] L by auto
next
  assume L: "unat (len a) \<le> max_elems a" and nf: "\<not> array_max_len a - len a < n"
  then have fits: "unat (len a) + unat n \<le> max_elems a"
    using not_fatal_iff[OF assms L, of n] by simp
  show "\<exists>a'. g_array_maybe_expand gc a n = Inr a'"
  proof (cases "want_len_of a n \<le> unat (elt_capacity a)")
    case True
    from g_array_maybe_expand_noop[OF assms fits True] show ?thesis by blast
  next
    case False
    then have "unat (elt_capacity a) < want_len_of a n" by simp
    from g_array_maybe_expand_grow[OF assms fits this, of gc] show ?thesis by blast
  qed
qed

theorem g_array_maybe_expand_overflow_policy_witness:
  "g_array_maybe_expand False (example_array\<lparr>elt_size := 1\<rparr>) 0xFFFFFFFF = Inl Fatal_overflow
   \<and> (\<exists>a'. g_array_maybe_expand False (example_array\<lparr>elt_size := 1\<rparr>) 0xFFFFFFFE = Inr a')"
proof -
  let ?a = "example_array\<lparr>elt_size := 1\<rparr>"
  have es: "elt_size ?a \<noteq> 0" by simp
  have m: "max_elems ?a = 4294967294" by (simp add: max_elems_def example_array_def)
  have l: "unat (len ?a) = 0" by (simp add: example_array_def)
  note p = g_array_maybe_expand_overflow_policy[OF es, of _ False]
  have ml: "array_max_len ?a - len ?a = 0xFFFFFFFE"
    by (simp add: array_max_len_def example_array_def G_MAXSIZE_def G_MAXUINT_def)
  have "g_array_maybe_expand False ?a 0xFFFFFFFF = Inl Fatal_overflow"
    using p[of "0xFFFFFFFF"] unfolding ml by simp
  moreover have "\<exists>a'. g_array_maybe_expand False ?a 0xFFFFFFFE = Inr a'"
    using p[of "0xFFFFFFFE"] unfolding ml m l by simp
  ultimately show ?thesis by simp
qed

text \<open>
  Claim C4. Every array reached from \<open>g_array_sized_new\<close> by a sequence of append, prepend,
  insert, remove, set-size, steal, free, ref, unref and set-clear-func calls has
  \<open>elt_capacity \<ge> len + (1 if zero-terminated)\<close> whenever \<open>data\<close> is not \<open>NULL\<close>, and
  \<open>elt_capacity = 0\<close> whenever \<open>data\<close> is \<open>NULL\<close>.
\<close>

theorem garray_capacity_invariant:
  assumes "g_array_sized_new gc zt clr es rs = Inr a0"
    and "array_run gc (Some a0) ops = Some a"
  shows "(data a \<noteq> None \<longrightarrow>
            unat (elt_capacity a) \<ge> unat (len a) + (if zero_terminated a then 1 else 0))
       \<and> (data a = None \<longrightarrow> elt_capacity a = 0)"
proof -
  have "array_inv a" using sized_new_inv[OF assms(1)] assms(2) by (rule array_run_inv)
  then show ?thesis by (simp add: array_inv_def zt_slot_def)
qed

lemmas garray_eval_defs =
  g_array_sized_new_def g_array_maybe_expand_def array_max_len_def Let_def
  G_MAXSIZE_def G_MAXUINT_def g_array_elt_len_def g_nearest_pow_def MIN_ARRAY_SIZE_def
  g_realloc_def g_array_zero_terminate_def g_array_elt_zero_def memset_zero_def blk_write_def
  blk_read_def g_array_elt_pos_def example_array_def upt_rec
  g_array_append_vals_def mem_copy_in_def mem_move_def g_array_remove_index_def
  after_remove_def keep_going_def call_clear_func_def

theorem garray_capacity_invariant_witness:
  "\<exists>a0 a. g_array_sized_new False True False 4 0 = Inr a0
      \<and> array_run False (Some a0) example_ops = Some a
      \<and> data a \<noteq> None \<and> len a = 1 \<and> unat (elt_capacity a) \<ge> 2"
proof -
  define a0 where "a0 = example_array\<lparr>data := Some (replicate 4 (Some 0) @ replicate 12 None),
     elt_capacity := 4\<rparr>"
  define a where "a = example_array\<lparr>data := Some ([Some 5, Some 6, Some 7, Some 8]
     @ replicate 4 (Some 0) @ replicate 4 (Some 0) @ replicate 4 None), len := 1, elt_capacity := 4\<rparr>"
  have h1: "g_array_sized_new False True False 4 0 = Inr a0"
    by (simp add: a0_def garray_eval_defs)
  have h2: "array_run False (Some a0) example_ops = Some a"
    by (simp add: a0_def a_def example_ops_def garray_eval_defs)
  from garray_capacity_invariant[OF h1 h2]
  have "unat (elt_capacity a) \<ge> unat (len a) + (if zero_terminated a then 1 else 0)"
    by (simp add: a_def)
  then have "unat (elt_capacity a) \<ge> 2" by (simp add: a_def example_array_def)
  with h1 h2 show ?thesis by (auto simp: a_def)
qed

section \<open>GArray: stealing, releasing, searching and sorting\<close>



lemma ties_built:
  "g_array_sized_new False False False 1 0 = Inr (ties_array\<lparr>data := None, len := 0, elt_capacity := 0\<rparr>)"
  "g_array_append_vals False (ties_array\<lparr>data := None, len := 0, elt_capacity := 0\<rparr>) [Some 1, Some 1, Some 1] 3 = Inr ties_array"
  by (simp_all add: ties_array_def garray_eval_defs)

text \<open>
  Claim C1 says that on a sorted array with several elements equal to the target,
  \<open>g_array_binary_search\<close> stores the lowest of their indices. On the array of the three
  one-byte elements 1, 1, 1 (built by \<open>g_array_sized_new\<close> and \<open>g_array_append_vals\<close>)
  and the target 1, the element at index 0 compares equal to the target, and the search
  stores index 1.
\<close>

theorem g_array_binary_search_ties:
  "g_array_elts ties_array = [[Some 1], [Some 1], [Some 1]]
   \<and> cmp_first_byte (g_array_elt ties_array 0) [Some 1] = 0
   \<and> g_array_binary_search ties_array [Some 1] cmp_first_byte = Some (True, Some 1, ties_array)"
  by (simp add: g_array_binary_search_def binary_search_loop.simps g_array_elts_def
      g_array_elt_def g_array_elt_pos_def g_array_elt_len_def blk_read_def ties_array_def
      cmp_first_byte_def first_byte_def Let_def upt_rec)

text \<open>
  Claim C8. For a comparison function that is a consistent total preorder, on an array whose
  block holds its \<open>len\<close> elements: \<open>g_array_sort_with_data\<close> leaves the elements in
  ascending order, they are the elements it was given, the elements that compare equal to any
  given one keep their relative order (stability), and sorting the result again changes
  nothing. \<open>g_array_sort\<close> is \<open>g_array_sort_with_data\<close> with a comparison function that
  ignores the user data.
\<close>

theorem g_array_sort_stable:
  assumes "cmp_consistent (\<lambda>x y. compare_func x y user_data)"
    and "data a = Some blk"
    and "unat (elt_size a) * unat (len a) \<le> length blk"
  shows "sorted_by (\<lambda>x y. compare_func x y user_data)
           (g_array_elts (g_array_sort_with_data a compare_func user_data))
       \<and> mset (g_array_elts (g_array_sort_with_data a compare_func user_data))
           = mset (g_array_elts a)
       \<and> (\<forall>e. filter (\<lambda>z. compare_func z e user_data = 0)
                 (g_array_elts (g_array_sort_with_data a compare_func user_data))
              = filter (\<lambda>z. compare_func z e user_data = 0) (g_array_elts a))
       \<and> g_array_sort_with_data (g_array_sort_with_data a compare_func user_data)
             compare_func user_data
           = g_array_sort_with_data a compare_func user_data
       \<and> (\<forall>a'. g_array_sort a' (\<lambda>x y. compare_func x y user_data)
                = g_array_sort_with_data a' compare_func user_data)"
proof -
  let ?cmp = "\<lambda>x y. compare_func x y user_data"
  let ?n = "unat (len a)" and ?es = "unat (elt_size a)"
  let ?s = "g_array_sort_with_data a compare_func user_data"
  note fit = assms(3)
  have same: "\<forall>a'. g_array_sort a' ?cmp = g_array_sort_with_data a' compare_func user_data"
    by (simp add: g_array_sort_def g_array_sort_with_data_def g_sort_array_def)
  show ?thesis
  proof (cases "len a > 0")
    case False
    then have "len a = 0" by (simp add: word_gt_0)
    then have e: "?s = a" "g_array_elts a = []"
      by (simp_all add: g_array_sort_with_data_def g_array_elts_def)
    show ?thesis using same by (simp add: e)
  next
    case True
    let ?b = "g_sort_array blk ?n ?es compare_func user_data"
    have s: "?s = a\<lparr>data := Some ?b\<rparr>"
      using True assms(2) by (simp add: g_array_sort_with_data_def)
    have ea: "g_array_elts a = blk_elements blk ?n ?es" by (rule g_array_elts_blk[OF assms(2)])
    have es: "g_array_elts ?s = msort_with ?cmp (g_array_elts a)"
      unfolding ea using g_array_elts_blk[of ?s ?b] g_sort_array_result(2)[OF fit]
      by (simp add: s)
    note p = msort_with_props[OF assms(1), of "g_array_elts a"]
    have lb: "length ?b = length blk" by (simp add: g_sort_array_def)
    have "g_sort_array ?b ?n ?es compare_func user_data = ?b"
    proof (rule g_sort_array_sorted_id)
      show "?es * ?n \<le> length ?b" using fit lb by simp
      show "sorted_by ?cmp (blk_elements ?b ?n ?es)"
        using p g_sort_array_result(2)[OF fit, of compare_func user_data] ea by simp
    qed
    then have "g_array_sort_with_data (a\<lparr>data := Some ?b\<rparr>) compare_func user_data
        = a\<lparr>data := Some ?b\<rparr>"
      using True by (simp add: g_array_sort_with_data_def)
    then have idem: "g_array_sort_with_data ?s compare_func user_data = ?s"
      unfolding s .
    show ?thesis using p same idem unfolding es by simp
  qed
qed

theorem g_array_sort_stable_witness:
  "g_array_elts pairs_array
      = [[Some 2, Some 1], [Some 1, Some 2], [Some 2, Some 3], [Some 1, Some 4]]
   \<and> g_array_elts (g_array_sort pairs_array cmp_first_byte)
      = [[Some 1, Some 2], [Some 1, Some 4], [Some 2, Some 1], [Some 2, Some 3]]
   \<and> sorted_by cmp_first_byte (g_array_elts (g_array_sort pairs_array cmp_first_byte))
   \<and> g_array_sort (g_array_sort pairs_array cmp_first_byte) cmp_first_byte
      = g_array_sort pairs_array cmp_first_byte"
proof -
  have c: "cmp_consistent (\<lambda>x y. (\<lambda>x y (u::unit). cmp_first_byte x y) x y ())"
    by (auto simp: cmp_consistent_def cmp_first_byte_def)
  have d: "data pairs_array
     = Some [Some 2, Some 1, Some 1, Some 2, Some 2, Some 3, Some 1, Some 4]"
    by (simp add: pairs_array_def)
  have f: "unat (elt_size pairs_array) * unat (len pairs_array)
     \<le> length [Some 2, Some 1, Some 1, Some 2, Some 2, Some 3, Some 1, Some (4::8 word)]"
    by (simp add: pairs_array_def)
  note t = g_array_sort_stable[of "\<lambda>x y (u::unit). cmp_first_byte x y" "()", OF c d f]
  have e0: "g_array_elts pairs_array
      = [[Some 2, Some 1], [Some 1, Some 2], [Some 2, Some 3], [Some 1, Some 4]]"
    by (simp add: g_array_elts_def g_array_elt_def pairs_array_def g_array_elt_pos_def
        g_array_elt_len_def blk_read_def upt_rec)
  have e1: "g_array_elts (g_array_sort pairs_array cmp_first_byte)
      = [[Some 1, Some 2], [Some 1, Some 4], [Some 2, Some 1], [Some 2, Some 3]]"
    by (simp add: g_array_sort_def g_sort_array_def blk_elements_def msort_with.simps
        g_array_elts_def g_array_elt_def pairs_array_def g_array_elt_pos_def
        g_array_elt_len_def blk_read_def blk_write_def upt_rec cmp_first_byte_def
        first_byte_def)
  from t e0 e1 show ?thesis by simp
qed

end
